theory Spec2Isabelle
  imports Main "HOL-Library.Sublist"
begin

section \<open>Answer extraction of the GSM8k-Aug dataset builders\<close>

text \<open>
  The three dataset builders (\<^verbatim>\<open>create_gsm8k_metamath.py\<close>, \<^verbatim>\<open>create_gsm8k_mumath.py\<close>,
  \<^verbatim>\<open>create_gsm8k_mugglemath.py\<close>) carry the same extraction utilities:
  \<^verbatim>\<open>last_boxed_only_string\<close>, \<^verbatim>\<open>remove_boxed\<close>, \<^verbatim>\<open>extract_answer_from_text\<close> (not in
  mugglemath) and \<^verbatim>\<open>extract_answer\<close>.

  A Python \<^verbatim>\<open>str\<close> is a sequence of code points; it is modelled as a \<^typ>\<open>string\<close> whose
  characters stand for the code points below 256. Indexing, slicing, \<^verbatim>\<open>len\<close>, \<^verbatim>\<open>rfind\<close>
  and the regular expressions all work code point by code point, so the model is the
  program on every text of such code points.
\<close>

subsection \<open>Characters\<close>

definition bslash :: char where
  "bslash = CHR 0x5C"

definition newline :: char where
  "newline = CHR 0x0A"

definition lbrace :: char where
  "lbrace = CHR 0x7B"

definition rbrace :: char where
  "rbrace = CHR 0x7D"

definition dot :: char where
  "dot = CHR 0x2E"

text \<open>
  \<^verbatim>\<open>str.isspace\<close> on the code points below 256: TAB, LF, VT, FF, CR, FS, GS, RS, US, space,
  NEL (0x85) and NBSP (0xA0). \<^verbatim>\<open>str.strip()\<close> removes these, and \<^verbatim>\<open>\s\<close> in a \<^verbatim>\<open>str\<close>
  pattern matches these.
\<close>

definition is_space :: "char \<Rightarrow> bool" where
  "is_space c = (c = CHR 0x09 \<or> c = CHR 0x0A \<or> c = CHR 0x0B \<or> c = CHR 0x0C \<or> c = CHR 0x0D
     \<or> c = CHR 0x1C \<or> c = CHR 0x1D \<or> c = CHR 0x1E \<or> c = CHR 0x1F \<or> c = CHR 0x20
     \<or> c = CHR 0x85 \<or> c = CHR 0xA0)"

subsection \<open>String methods of Python\<close>

text \<open>\<^verbatim>\<open>s.strip()\<close>: leading and trailing whitespace removed.\<close>

definition strip :: "string \<Rightarrow> string" where
  "strip s = rev (dropWhile is_space (rev (dropWhile is_space s)))"

text \<open>\<^verbatim>\<open>s.rstrip('.')\<close>: every trailing period removed.\<close>

definition rstrip_dot :: "string \<Rightarrow> string" where
  "rstrip_dot s = rev (dropWhile (\<lambda>c. c = dot) (rev s))"

text \<open>
  \<^verbatim>\<open>s.rfind(sub)\<close>: the highest index \<open>i\<close> with \<^verbatim>\<open>s[i:i+len(sub)] == sub\<close>; Python's \<open>-1\<close>
  is \<open>None\<close> here.
\<close>

fun rfind :: "string \<Rightarrow> string \<Rightarrow> nat option" where
  "rfind sub [] = (if sub = [] then Some 0 else None)"
| "rfind sub (c # cs) =
     (case rfind sub cs of
        Some i \<Rightarrow> Some (Suc i)
      | None \<Rightarrow> if prefix sub (c # cs) then Some 0 else None)"

text \<open>\<^verbatim>\<open>sub in s\<close>.\<close>

fun contains :: "string \<Rightarrow> string \<Rightarrow> bool" where
  "contains sub [] = (sub = [])"
| "contains sub (c # cs) = (prefix sub (c # cs) \<or> contains sub cs)"

subsection \<open>The boxed stage\<close>

definition boxed_marker :: string where
  "boxed_marker = bslash # ''boxed''"

definition fbox_marker :: string where
  "fbox_marker = bslash # ''fbox''"

text \<open>
  The index \<^verbatim>\<open>idx\<close> of \<^verbatim>\<open>last_boxed_only_string\<close>: \<^verbatim>\<open>string.rfind("\\boxed")\<close>, and
  \<^verbatim>\<open>string.rfind("\\fbox")\<close> when that is negative.
\<close>

definition boxed_start :: "string \<Rightarrow> nat option" where
  "boxed_start s =
     (case rfind boxed_marker s of
        Some idx \<Rightarrow> Some idx
      | None \<Rightarrow> rfind fbox_marker s)"

text \<open>
  The \<^verbatim>\<open>while i < len(string)\<close> loop: \<open>n\<close> is \<^verbatim>\<open>num_left_braces_open\<close>, \<open>i\<close> the index of
  the head of the remaining text. The result is \<^verbatim>\<open>right_brace_idx\<close>.
\<close>

fun brace_scan :: "int \<Rightarrow> nat \<Rightarrow> string \<Rightarrow> nat option" where
  "brace_scan n i [] = None"
| "brace_scan n i (c # cs) =
     (let n1 = (if c = lbrace then n + 1 else n) in
      if c = rbrace then
        (if n1 - 1 = 0 then Some i else brace_scan (n1 - 1) (Suc i) cs)
      else brace_scan n1 (Suc i) cs)"

definition last_boxed_only_string :: "string \<Rightarrow> string option" where
  "last_boxed_only_string s =
     (case boxed_start s of
        None \<Rightarrow> None
      | Some idx \<Rightarrow>
          (case brace_scan 0 idx (drop idx s) of
             None \<Rightarrow> None
           | Some right_brace_idx \<Rightarrow> Some (take (right_brace_idx + 1 - idx) (drop idx s))))"

definition remove_boxed :: "string \<Rightarrow> string option" where
  "remove_boxed s =
     (if contains (boxed_marker @ '' '') s \<and> take 7 s = boxed_marker @ '' '' then Some (drop 7 s)
      else if prefix (boxed_marker @ [lbrace]) s \<and> suffix [rbrace] s then Some (drop 7 (butlast s))
      else if prefix (fbox_marker @ [lbrace]) s \<and> suffix [rbrace] s then Some (drop 6 (butlast s))
      else None)"

text \<open>
  The \<^verbatim>\<open>try\<close> block of \<^verbatim>\<open>extract_answer\<close> around the boxed functions: \<open>None\<close> is falling
  through to the code after the block.
\<close>

definition boxed_stage :: "string \<Rightarrow> string option" where
  "boxed_stage text =
     (case last_boxed_only_string text of
        None \<Rightarrow> None
      | Some boxed_str \<Rightarrow>
          (case remove_boxed boxed_str of
             None \<Rightarrow> None
           | Some ans \<Rightarrow> if strip ans \<noteq> [] then Some (strip ans) else None))"

subsection \<open>The phrase stage\<close>

text \<open>
  The three patterns of \<^verbatim>\<open>extract_answer_from_text\<close> are matched by \<^verbatim>\<open>re.search\<close>, a
  backtracking matcher: it tries the start positions from left to right and, at each one,
  the alternatives of every quantifier in their order of preference (a greedy quantifier
  the longest first, a lazy one the shortest first). Each piece of a pattern is a function
  on the text that remains at its position; a pattern that matches gives its group 1.
\<close>

text \<open>The class \<^verbatim>\<open>[:\s]\<close>.\<close>

definition is_sep :: "char \<Rightarrow> bool" where
  "is_sep c = (c = CHR '':'' \<or> is_space c)"

text \<open>
  \<^verbatim>\<open>$\<close> (no \<^verbatim>\<open>re.MULTILINE\<close>): at the end of the text, or before a newline that ends the
  text.
\<close>

definition at_end :: "string \<Rightarrow> bool" where
  "at_end r = (r = [] \<or> r = [newline])"

text \<open>\<^verbatim>\<open>\.?$\<close>: the period is taken first, and given back when \<^verbatim>\<open>$\<close> fails after it.\<close>

definition opt_dot_end :: "string \<Rightarrow> bool" where
  "opt_dot_end r = (case r of [] \<Rightarrow> at_end [] | c # cs \<Rightarrow> (c = dot \<and> at_end cs) \<or> at_end (c # cs))"

text \<open>
  \<^verbatim>\<open>([^\n]+?)\.?$\<close>: the lazy group takes one character, and one more each time the rest
  of the pattern fails after it. \<open>g\<close> is the group so far.
\<close>

fun lazy_more :: "string \<Rightarrow> string \<Rightarrow> string option" where
  "lazy_more g [] = (if opt_dot_end [] then Some g else None)"
| "lazy_more g (c # cs) =
     (if opt_dot_end (c # cs) then Some g
      else if c = newline then None
      else lazy_more (g @ [c]) cs)"

definition lazy_group :: "string \<Rightarrow> string option" where
  "lazy_group r =
     (case r of
        [] \<Rightarrow> None
      | c # cs \<Rightarrow> if c = newline then None else lazy_more [c] cs)"

text \<open>\<^verbatim>\<open>([^\n]+)\<close> at the end of a pattern: the longest run without a newline, not empty.\<close>

definition greedy_group :: "string \<Rightarrow> string option" where
  "greedy_group r =
     (let g = takeWhile (\<lambda>c. c \<noteq> newline) r in if g = [] then None else Some g)"

text \<open>
  \<^verbatim>\<open>[:\s]+\<close> followed by the rest \<open>cont\<close> of a pattern: greedy, so the rest is tried after
  \<open>k\<close> separators for \<open>k\<close> from the length of the whole run down to 1.
\<close>

fun after_seps :: "(string \<Rightarrow> string option) \<Rightarrow> nat \<Rightarrow> string \<Rightarrow> string option" where
  "after_seps cont 0 r = None"
| "after_seps cont (Suc k) r =
     (case cont (drop (Suc k) r) of
        Some g \<Rightarrow> Some g
      | None \<Rightarrow> after_seps cont k r)"

text \<open>\<^verbatim>\<open>[Tt]he answer is\<close>: the text after the phrase.\<close>

definition match_phrase :: "string \<Rightarrow> string option" where
  "match_phrase s =
     (case s of
        [] \<Rightarrow> None
      | c # cs \<Rightarrow>
          if (c = CHR ''T'' \<or> c = CHR ''t'') \<and> prefix ''he answer is'' cs
          then Some (drop 12 cs) else None)"

definition answer_is :: "(string \<Rightarrow> string option) \<Rightarrow> string \<Rightarrow> string option" where
  "answer_is cont s =
     (case match_phrase s of
        None \<Rightarrow> None
      | Some r \<Rightarrow> after_seps cont (length (takeWhile is_sep r)) r)"

text \<open>\<^verbatim>\<open>[Tt]he answer is[:\s]+([^\n]+?)\.?$\<close> at the head of \<open>s\<close>.\<close>

definition pattern1 :: "string \<Rightarrow> string option" where
  "pattern1 s = answer_is lazy_group s"

text \<open>\<^verbatim>\<open>[Tt]he answer is[:\s]+([^\n]+)\<close> at the head of \<open>s\<close>.\<close>

definition pattern2 :: "string \<Rightarrow> string option" where
  "pattern2 s = answer_is greedy_group s"

text \<open>\<^verbatim>\<open>#### ([^\n]+?)\.?$\<close> at the head of \<open>s\<close>.\<close>

definition pattern3 :: "string \<Rightarrow> string option" where
  "pattern3 s = (if prefix ''#### '' s then lazy_group (drop 5 s) else None)"

text \<open>\<^verbatim>\<open>re.search\<close>: the leftmost position where the pattern matches.\<close>

fun re_search :: "(string \<Rightarrow> string option) \<Rightarrow> string \<Rightarrow> string option" where
  "re_search pat [] = pat []"
| "re_search pat (c # cs) =
     (case pat (c # cs) of
        Some g \<Rightarrow> Some g
      | None \<Rightarrow> re_search pat cs)"

text \<open>The \<^verbatim>\<open>for pattern in patterns\<close> loop.\<close>

fun try_patterns :: "(string \<Rightarrow> string option) list \<Rightarrow> string \<Rightarrow> string option" where
  "try_patterns [] text = None"
| "try_patterns (pat # pats) text =
     (case re_search pat (strip text) of
        None \<Rightarrow> try_patterns pats text
      | Some g \<Rightarrow>
          (let answer = rstrip_dot (strip g) in
           if answer \<noteq> [] then Some answer else try_patterns pats text))"

definition extract_answer_from_text :: "string \<Rightarrow> string option" where
  "extract_answer_from_text text =
     (if text = [] then None else try_patterns [pattern1, pattern2, pattern3] text)"

text \<open>The \<^verbatim>\<open>try\<close> block of \<^verbatim>\<open>extract_answer\<close> around \<^verbatim>\<open>extract_answer_from_text\<close>.\<close>

definition phrase_stage :: "string \<Rightarrow> string option" where
  "phrase_stage text =
     (case extract_answer_from_text text of
        None \<Rightarrow> None
      | Some ans \<Rightarrow> if ans \<noteq> [] then Some (strip ans) else None)"

subsection \<open>The fallback stage and \<^verbatim>\<open>extract_answer\<close>\<close>

text \<open>
  \<^verbatim>\<open>math_verify\<close> is a library outside the repository, so it is a parameter: whether the
  import succeeded (\<^verbatim>\<open>MATH_VERIFY_AVAILABLE\<close>) and what \<^verbatim>\<open>parse(text, config)\<close> does, which
  is raising an exception or returning a list; the list holds \<^verbatim>\<open>str(e)\<close> of each
  expression \<open>e\<close>.
\<close>

datatype parse_error = ParseException

record math_verify =
  available :: bool
  parse :: "string \<Rightarrow> parse_error + string list"

definition symbolic_stage :: "math_verify \<Rightarrow> string \<Rightarrow> string option" where
  "symbolic_stage mv text =
     (if available mv then
        (case parse mv text of
           Inl e \<Rightarrow> None
         | Inr parsed \<Rightarrow>
             if parsed \<noteq> [] then
               (let ans = strip (last parsed) in if ans \<noteq> [] then Some ans else None)
             else None)
      else None)"

text \<open>\<^verbatim>\<open>extract_answer\<close> of \<^verbatim>\<open>create_gsm8k_metamath.py\<close> and \<^verbatim>\<open>create_gsm8k_mumath.py\<close>.\<close>

definition extract_answer_metamath :: "math_verify \<Rightarrow> string \<Rightarrow> string" where
  "extract_answer_metamath mv text =
     (if text = [] then []
      else case phrase_stage text of
        Some ans \<Rightarrow> ans
      | None \<Rightarrow>
          (case boxed_stage text of
             Some ans \<Rightarrow> ans
           | None \<Rightarrow>
               (case symbolic_stage mv text of
                  Some ans \<Rightarrow> ans
                | None \<Rightarrow> [])))"

text \<open>\<^verbatim>\<open>extract_answer\<close> of \<^verbatim>\<open>create_gsm8k_mugglemath.py\<close>.\<close>

definition extract_answer_mugglemath :: "math_verify \<Rightarrow> string \<Rightarrow> string" where
  "extract_answer_mugglemath mv text =
     (if text = [] then []
      else case boxed_stage text of
        Some ans \<Rightarrow> ans
      | None \<Rightarrow>
          (case symbolic_stage mv text of
             Some ans \<Rightarrow> ans
           | None \<Rightarrow> []))"

subsection \<open>Notions of the specification\<close>

text \<open>
  A brace-balanced text: read from the left with \<open>d\<close> braces open, no closing brace
  comes without an open one, and none is left open at the end.
\<close>

fun balanced_from :: "nat \<Rightarrow> string \<Rightarrow> bool" where
  "balanced_from d [] = (d = 0)"
| "balanced_from d (c # cs) =
     (if c = lbrace then balanced_from (Suc d) cs
      else if c = rbrace then 0 < d \<and> balanced_from (d - 1) cs
      else balanced_from d cs)"

definition balanced :: "string \<Rightarrow> bool" where
  "balanced X = balanced_from 0 X"

text \<open>
  A text in which a group opened before it is never closed: read from the left with
  \<open>d\<close> braces open, at least one stays open after every character.
\<close>

fun unclosed_from :: "nat \<Rightarrow> string \<Rightarrow> bool" where
  "unclosed_from d [] = (0 < d)"
| "unclosed_from d (c # cs) =
     (if c = lbrace then unclosed_from (Suc d) cs
      else if c = rbrace then 1 < d \<and> unclosed_from (d - 1) cs
      else unclosed_from d cs)"

text \<open>A run without \<^verbatim>\<open>math_verify\<close>: the import failed.\<close>

definition no_math_verify :: math_verify where
  "no_math_verify = \<lparr>available = False, parse = (\<lambda>text. Inl ParseException)\<rparr>"

text \<open>A run in which \<^verbatim>\<open>math_verify\<close> is there and \<^verbatim>\<open>parse\<close> raises on every text.\<close>

definition raising_math_verify :: math_verify where
  "raising_math_verify = \<lparr>available = True, parse = (\<lambda>text. Inl ParseException)\<rparr>"

text \<open>A run in which \<^verbatim>\<open>parse\<close> returns the one expression \<^verbatim>\<open>1\<close> on every text.\<close>

definition one_math_verify :: math_verify where
  "one_math_verify = \<lparr>available = True, parse = (\<lambda>text. Inr [''1''])\<rparr>"

section \<open>Properties\<close>

subsection \<open>Stripping\<close>

lemma strip_Nil: "strip [] = []"
  by (simp add: strip_def)

lemma strip_ends:
  assumes "strip s \<noteq> []"
  shows "\<not> is_space (hd (strip s))" and "\<not> is_space (last (strip s))"
proof -
  let ?t = "dropWhile is_space s"
  let ?u = "dropWhile is_space (rev ?t)"
  have s: "strip s = rev ?u" by (simp add: strip_def)
  with assms have u: "?u \<noteq> []" by simp
  then have 1: "\<not> is_space (hd ?u)" by (rule hd_dropWhile)
  have "suffix ?u (rev ?t)" by (rule suffix_dropWhile)
  then obtain ws where "rev ?t = ws @ ?u" by (auto simp: suffix_def)
  then have t: "?t = rev ?u @ rev ws" by (metis rev_append rev_rev_ident)
  then have "?t \<noteq> []" using u by (metis append_is_Nil_conv rev_is_Nil_conv)
  then have "\<not> is_space (hd ?t)" by (rule hd_dropWhile)
  moreover have "hd ?t = hd (rev ?u)" using t u by (metis hd_append2 rev_is_Nil_conv)
  ultimately show "\<not> is_space (hd (strip s))" using s by simp
  show "\<not> is_space (last (strip s))" using 1 u s by (simp add: last_rev)
qed

lemma strip_id:
  assumes "s = [] \<or> (\<not> is_space (hd s) \<and> \<not> is_space (last s))"
  shows "strip s = s"
proof (cases "s = []")
  case True
  then show ?thesis by (simp add: strip_Nil)
next
  case False
  with assms have h: "\<not> is_space (hd s)" and l: "\<not> is_space (last s)" by auto
  from h have d: "dropWhile is_space s = s" by (simp add: dropWhile_eq_self_iff)
  from l False have "dropWhile is_space (rev s) = rev s"
    by (simp add: dropWhile_eq_self_iff hd_rev)
  then show ?thesis by (simp add: strip_def d)
qed

lemma strip_strip: "strip (strip s) = strip s"
  by (rule strip_id) (use strip_ends [of s] in blast)

lemma strip_nonempty_iff: "strip s \<noteq> [] \<longleftrightarrow> (\<exists>c \<in> set s. \<not> is_space c)"
proof
  show "\<exists>c \<in> set s. \<not> is_space c" if "strip s \<noteq> []"
  proof (rule ccontr)
    assume "\<not> (\<exists>c \<in> set s. \<not> is_space c)"
    then have "strip s = []" by (auto simp: strip_def dest: set_dropWhileD)
    with that show False by simp
  qed
next
  assume "\<exists>c \<in> set s. \<not> is_space c"
  then have t: "dropWhile is_space s \<noteq> []" by simp
  then have "\<not> is_space (hd (dropWhile is_space s))" by (rule hd_dropWhile)
  then have "\<exists>c \<in> set (rev (dropWhile is_space s)). \<not> is_space c"
    using t by (metis hd_in_set set_rev)
  then have "dropWhile is_space (rev (dropWhile is_space s)) \<noteq> []" by simp
  then show "strip s \<noteq> []" by (simp add: strip_def)
qed

lemma strip_append_keep:
  assumes "suf \<noteq> []" and "\<not> is_space (last suf)"
  shows "strip (pre @ suf) = dropWhile is_space (pre @ suf)"
proof -
  let ?t = "dropWhile is_space (pre @ suf)"
  have "suffix ?t (pre @ suf)" by (rule suffix_dropWhile)
  have ne: "?t \<noteq> []" using assms by (auto intro: last_in_set)
  have "last ?t = last suf"
  proof (cases "\<forall>x\<in>set pre. is_space x")
    case True
    then have "?t = dropWhile is_space suf" by (simp add: dropWhile_append)
    moreover have "dropWhile is_space suf \<noteq> []" using assms by (auto intro: last_in_set)
    ultimately show ?thesis
      by (metis suffix_dropWhile suffix_def last_appendR)
  next
    case False
    then have "?t = dropWhile is_space pre @ suf" by (auto simp add: dropWhile_append)
    then show ?thesis using assms by simp
  qed
  with assms ne have "dropWhile is_space (rev ?t) = rev ?t"
    by (simp add: dropWhile_eq_self_iff hd_rev)
  then show ?thesis by (simp add: strip_def)
qed

subsection \<open>The last occurrence\<close>

lemma rfind_None_iff: "rfind sub s = None \<longleftrightarrow> \<not> sublist sub s"
  by (induction s) (auto simp: sublist_Cons_right split: option.splits)

lemma rfind_SomeD:
  "sub \<noteq> [] \<Longrightarrow> rfind sub s = Some i \<Longrightarrow> i \<le> length s \<and> prefix sub (drop i s) \<and> \<not> sublist sub (drop (Suc i) s)"
proof (induction s arbitrary: i)
  case Nil
  then show ?case by (simp split: if_splits)
next
  case (Cons c cs)
  show ?case
  proof (cases "rfind sub cs")
    case None
    with Cons.prems have "i = 0" "prefix sub (c # cs)" by (auto split: if_splits)
    moreover from None have "\<not> sublist sub cs" by (simp add: rfind_None_iff)
    ultimately show ?thesis by simp
  next
    case (Some j)
    with Cons.prems have "i = Suc j" by simp
    with Cons.IH [OF Cons.prems(1) Some] show ?thesis by simp
  qed
qed

lemma prefix_drop_sublist: "prefix sub (drop j s) \<Longrightarrow> sublist sub s"
  by (metis prefix_imp_sublist sublist_drop sublist_order.order_trans)

lemma rfind_last_occurrence:
  assumes "sub \<noteq> []" and "rfind sub s = Some i" and "i < j"
  shows "\<not> prefix sub (drop j s)"
proof
  assume p: "prefix sub (drop j s)"
  from assms(3) obtain k where "j = Suc i + k" using less_iff_Suc_add by auto
  then have "drop j s = drop k (drop (Suc i) s)" by (simp add: add.commute)
  with p have "sublist sub (drop (Suc i) s)" by (metis prefix_drop_sublist)
  with rfind_SomeD [OF assms(1,2)] show False by simp
qed

lemma rfind_append_last:
  assumes "sub \<noteq> []" and "\<not> sublist sub (tl (sub @ rest))"
  shows "rfind sub (pre @ sub @ rest) = Some (length pre)"
proof (induction pre)
  case Nil
  from assms(1) obtain c cs where c: "sub @ rest = c # cs" by (cases sub) auto
  with assms(2) have "rfind sub cs = None" by (simp add: rfind_None_iff)
  moreover have "prefix sub (c # cs)" using c by (metis prefixI)
  ultimately show ?case using c by simp
next
  case (Cons p ps)
  then show ?case by simp
qed

lemma rfind_drop:
  assumes "sub \<noteq> []" and "rfind sub s = Some i"
  shows "rfind sub (drop i s) = Some 0"
proof -
  from rfind_SomeD [OF assms] have p: "prefix sub (drop i s)"
    and n: "\<not> sublist sub (drop (Suc i) s)" by auto
  show ?thesis
  proof (cases "drop i s")
    case Nil
    with p show ?thesis by simp
  next
    case (Cons c cs)
    then have "cs = drop (Suc i) s" by (metis drop_Suc list.sel(3) tl_drop)
    with n have "rfind sub cs = None" by (simp add: rfind_None_iff)
    with p Cons show ?thesis by simp
  qed
qed

subsection \<open>The markers\<close>

lemma boxed_not_in_tail: "sublist boxed_marker (tl (boxed_marker @ rest)) \<longleftrightarrow> sublist boxed_marker rest"
  by (simp add: boxed_marker_def bslash_def sublist_Cons_right)

lemma fbox_not_in_tail: "sublist fbox_marker (tl (fbox_marker @ rest)) \<longleftrightarrow> sublist fbox_marker rest"
  by (simp add: fbox_marker_def bslash_def sublist_Cons_right)

lemma boxed_start_boxed:
  assumes "\<not> sublist boxed_marker rest"
  shows "boxed_start (pre @ boxed_marker @ rest) = Some (length pre)"
proof -
  have "rfind boxed_marker (pre @ boxed_marker @ rest) = Some (length pre)"
    using assms by (intro rfind_append_last) (simp_all add: boxed_not_in_tail, simp add: boxed_marker_def)
  then show ?thesis by (simp add: boxed_start_def)
qed

lemma boxed_start_fbox:
  assumes "\<not> sublist boxed_marker (pre @ fbox_marker @ rest)" and "\<not> sublist fbox_marker rest"
  shows "boxed_start (pre @ fbox_marker @ rest) = Some (length pre)"
proof -
  have "rfind fbox_marker (pre @ fbox_marker @ rest) = Some (length pre)"
    using assms(2) by (intro rfind_append_last) (simp_all add: fbox_not_in_tail, simp add: fbox_marker_def)
  moreover have "rfind boxed_marker (pre @ fbox_marker @ rest) = None"
    using assms(1) by (simp add: rfind_None_iff)
  ultimately show ?thesis by (simp add: boxed_start_def)
qed

subsection \<open>The brace scan\<close>

lemma brace_neq [simp]: "lbrace \<noteq> rbrace" "rbrace \<noteq> lbrace"
  by (simp_all add: lbrace_def rbrace_def)

lemma brace_scan_shift: "brace_scan n (i + k) r = map_option (\<lambda>j. j + k) (brace_scan n i r)"
proof (induction r arbitrary: n i)
  case Nil
  then show ?case by simp
next
  case (Cons c cs)
  from Cons [of _ "Suc i"] show ?case by (simp add: Let_def)
qed

lemma brace_scan_no_brace:
  "lbrace \<notin> set g \<Longrightarrow> rbrace \<notin> set g \<Longrightarrow> brace_scan n i (g @ r) = brace_scan n (i + length g) r"
  by (induction g arbitrary: i) (auto simp: Let_def)

lemma brace_scan_balanced:
  "balanced_from d X \<Longrightarrow> 0 < n \<Longrightarrow>
   brace_scan (n + int d) i (X @ r) = brace_scan n (i + length X) r"
proof (induction X arbitrary: d i)
  case Nil
  then show ?case by simp
next
  case (Cons c cs)
  show ?case
  proof (cases "c = lbrace")
    case True
    from True Cons.prems have b: "balanced_from (Suc d) cs" by simp
    have e: "n + int d + 1 = n + int (Suc d)" by simp
    have "brace_scan (n + int d) i ((c # cs) @ r) = brace_scan (n + int d + 1) (Suc i) (cs @ r)"
      using True by (simp add: Let_def)
    also have "\<dots> = brace_scan (n + int (Suc d)) (Suc i) (cs @ r)"
      by (simp only: e)
    also have "\<dots> = brace_scan n (Suc i + length cs) r"
      using b Cons.prems(2) by (rule Cons.IH)
    finally show ?thesis by (simp only: length_Cons add_Suc add_Suc_right)
  next
    case False
    show ?thesis
    proof (cases "c = rbrace")
      case True
      with False Cons.prems have d: "0 < d" and b: "balanced_from (d - 1) cs" by auto
      from d have e: "n + int d - 1 = n + int (d - 1)" by simp
      from d Cons.prems(2) have z: "n + int d - 1 \<noteq> 0" by simp
      have "brace_scan (n + int d) i ((c # cs) @ r) = brace_scan (n + int d - 1) (Suc i) (cs @ r)"
        using True z by (simp add: Let_def)
      also have "\<dots> = brace_scan (n + int (d - 1)) (Suc i) (cs @ r)"
        by (simp only: e)
      also have "\<dots> = brace_scan n (Suc i + length cs) r"
        using b Cons.prems(2) by (rule Cons.IH)
      finally show ?thesis by (simp only: length_Cons add_Suc add_Suc_right)
    next
      case F2: False
      with False Cons.prems have b: "balanced_from d cs" by simp
      have "brace_scan (n + int d) i ((c # cs) @ r) = brace_scan (n + int d) (Suc i) (cs @ r)"
        using False F2 by (simp add: Let_def)
      also have "\<dots> = brace_scan n (Suc i + length cs) r"
        using b Cons.prems(2) by (rule Cons.IH)
      finally show ?thesis by (simp only: length_Cons add_Suc add_Suc_right)
    qed
  qed
qed

lemma brace_scan_group:
  assumes "lbrace \<notin> set g" and "rbrace \<notin> set g" and "balanced_from 0 X"
  shows "brace_scan 0 i (g @ lbrace # X @ rbrace # post) = Some (i + length g + length X + 1)"
proof -
  have "brace_scan 0 i (g @ lbrace # X @ rbrace # post)
      = brace_scan 0 (i + length g) (lbrace # X @ rbrace # post)"
    using assms by (simp add: brace_scan_no_brace)
  also have "\<dots> = brace_scan (1 + int 0) (Suc (i + length g)) (X @ rbrace # post)"
    by (simp add: Let_def lbrace_def rbrace_def)
  also have "\<dots> = brace_scan 1 (Suc (i + length g) + length X) (rbrace # post)"
    using assms(3) by (intro brace_scan_balanced) simp_all
  also have "\<dots> = Some (i + length g + length X + 1)"
    by (simp add: Let_def lbrace_def rbrace_def)
  finally show ?thesis .
qed

lemma brace_scan_no_open:
  "lbrace \<notin> set r \<Longrightarrow> n \<le> 0 \<Longrightarrow> brace_scan n i r = None"
  by (induction r arbitrary: n i) (auto simp: Let_def)

lemma brace_scan_no_close:
  "rbrace \<notin> set r \<Longrightarrow> brace_scan n i r = None"
  by (induction r arbitrary: n i) (auto simp: Let_def)

subsection \<open>The boxed stage: helper facts\<close>

lemma marker_no_brace:
  "lbrace \<notin> set boxed_marker" "rbrace \<notin> set boxed_marker"
  "lbrace \<notin> set fbox_marker" "rbrace \<notin> set fbox_marker"
  by (simp_all add: boxed_marker_def fbox_marker_def lbrace_def rbrace_def bslash_def)

lemma last_boxed_group:
  assumes st: "boxed_start (pre @ m @ gap @ lbrace # X @ rbrace # post) = Some (length pre)"
    and m: "lbrace \<notin> set m" "rbrace \<notin> set m"
    and gap: "lbrace \<notin> set gap" "rbrace \<notin> set gap"
    and X: "balanced X"
  shows "last_boxed_only_string (pre @ m @ gap @ lbrace # X @ rbrace # post)
       = Some (m @ gap @ lbrace # X @ [rbrace])"
proof -
  let ?r = "m @ gap @ lbrace # X @ rbrace # post"
  have "brace_scan 0 (length pre) ((m @ gap) @ lbrace # X @ rbrace # post)
      = Some (length pre + length (m @ gap) + length X + 1)"
    using m gap X by (intro brace_scan_group) (simp_all add: balanced_def)
  then have sc: "brace_scan 0 (length pre) ?r = Some (length pre + length (m @ gap) + length X + 1)"
    by simp
  have "take (length u) (u @ post) = u" for u :: string
    by simp
  from this [of "m @ gap @ lbrace # X @ [rbrace]"] have tk: "take (length pre + length (m @ gap) + length X + 1 + 1 - length pre) ?r
      = m @ gap @ lbrace # X @ [rbrace]"
    by simp
  have dr: "drop (length pre) (pre @ ?r) = ?r"
    by simp
  show ?thesis
    unfolding last_boxed_only_string_def st by (simp only: option.case dr sc tk)
qed

lemma marker_nonempty: "boxed_marker \<noteq> []" "fbox_marker \<noteq> []"
  by (simp_all add: boxed_marker_def fbox_marker_def)

lemma contains_iff_sublist: "contains sub s \<longleftrightarrow> sublist sub s"
  by (induction s) (auto simp: sublist_Cons_right)

lemma suffix_single: "suffix [c] s \<longleftrightarrow> s \<noteq> [] \<and> last s = c"
  by (metis append_butlast_last_id last_snoc snoc_eq_iff_butlast suffix_def suffixI)

lemma remove_boxed_braced: "remove_boxed (boxed_marker @ lbrace # X @ [rbrace]) = Some X"
  by (simp add: remove_boxed_def boxed_marker_def fbox_marker_def suffix_single
      bslash_def lbrace_def rbrace_def)

lemma remove_fbox_braced: "remove_boxed (fbox_marker @ lbrace # X @ [rbrace]) = Some X"
  by (simp add: remove_boxed_def boxed_marker_def fbox_marker_def suffix_single
      bslash_def lbrace_def rbrace_def)

lemma remove_boxed_spaced_prefix: "remove_boxed (boxed_marker @ '' '' @ r) = Some r"
proof -
  have "sublist (boxed_marker @ '' '') (boxed_marker @ '' '' @ r)"
    by (metis append_assoc sublist_append_rightI)
  then show ?thesis
    by (simp add: remove_boxed_def contains_iff_sublist) (simp add: boxed_marker_def)
qed

lemma marker_not_at_brace:
  "sublist boxed_marker (lbrace # r) \<longleftrightarrow> sublist boxed_marker r"
  "sublist fbox_marker (lbrace # r) \<longleftrightarrow> sublist fbox_marker r"
  by (simp_all add: sublist_Cons_right boxed_marker_def fbox_marker_def bslash_def lbrace_def)

lemma boxed_start_group:
  assumes "m = boxed_marker \<or> (m = fbox_marker \<and> \<not> sublist boxed_marker (pre @ m @ rest))"
    and "\<not> sublist m rest"
  shows "boxed_start (pre @ m @ rest) = Some (length pre)"
  using assms boxed_start_boxed [of rest pre] boxed_start_fbox [of pre rest] by auto

lemma boxed_stage_group:
  assumes m: "m = boxed_marker \<or>
      (m = fbox_marker \<and> \<not> sublist boxed_marker (pre @ m @ lbrace # X @ rbrace # post))"
    and last: "\<not> sublist m (X @ rbrace # post)"
    and X: "balanced X"
  shows "boxed_stage (pre @ m @ lbrace # X @ rbrace # post)
       = (if strip X \<noteq> [] then Some (strip X) else None)"
proof -
  from m last have "\<not> sublist m (lbrace # X @ rbrace # post)"
    by (auto simp: marker_not_at_brace)
  with m have "boxed_start (pre @ m @ lbrace # X @ rbrace # post) = Some (length pre)"
    by (intro boxed_start_group)
  then have st: "boxed_start (pre @ m @ [] @ lbrace # X @ rbrace # post) = Some (length pre)"
    by simp
  from m have nb: "lbrace \<notin> set m" "rbrace \<notin> set m"
    by (auto simp: marker_no_brace)
  have "last_boxed_only_string (pre @ m @ [] @ lbrace # X @ rbrace # post)
      = Some (m @ [] @ lbrace # X @ [rbrace])"
    using st nb _ _ X by (rule last_boxed_group) simp_all
  then have sp: "last_boxed_only_string (pre @ m @ lbrace # X @ rbrace # post)
      = Some (m @ lbrace # X @ [rbrace])"
    by simp
  from m have "remove_boxed (m @ lbrace # X @ [rbrace]) = Some X"
    by (auto simp: remove_boxed_braced remove_fbox_braced)
  with sp show ?thesis by (simp add: boxed_stage_def)
qed

lemma boxed_start_drop:
  assumes "boxed_start s = Some i"
  shows "boxed_start (drop i s) = Some 0"
proof (cases "rfind boxed_marker s")
  case None
  with assms have f: "rfind fbox_marker s = Some i" by (simp add: boxed_start_def)
  from None have "\<not> sublist boxed_marker s" by (simp add: rfind_None_iff)
  then have "\<not> sublist boxed_marker (drop i s)"
    by (metis sublist_drop sublist_order.order_trans)
  then have "rfind boxed_marker (drop i s) = None" by (simp add: rfind_None_iff)
  moreover from f have "rfind fbox_marker (drop i s) = Some 0"
    by (intro rfind_drop) (simp_all add: marker_nonempty)
  ultimately show ?thesis by (simp add: boxed_start_def)
next
  case (Some j)
  with assms have "rfind boxed_marker s = Some i" by (simp add: boxed_start_def)
  then have "rfind boxed_marker (drop i s) = Some 0"
    by (intro rfind_drop) (simp_all add: marker_nonempty)
  then show ?thesis by (simp add: boxed_start_def)
qed

lemma last_boxed_drop:
  assumes "boxed_start s = Some i"
  shows "last_boxed_only_string s = last_boxed_only_string (drop i s)"
proof -
  have "brace_scan 0 (0 + i) (drop i s) = map_option (\<lambda>j. j + i) (brace_scan 0 0 (drop i s))"
    by (rule brace_scan_shift)
  then show ?thesis
    using assms boxed_start_drop [OF assms]
    by (cases "brace_scan 0 0 (drop i s)") (simp_all add: last_boxed_only_string_def)
qed

lemma boxed_start_nonempty: "boxed_start s = Some i \<Longrightarrow> s \<noteq> []"
  by (auto simp: boxed_start_def boxed_marker_def fbox_marker_def split: option.splits)

subsection \<open>What a stage returns\<close>

lemma rstrip_dot_last: "rstrip_dot s \<noteq> [] \<Longrightarrow> last (rstrip_dot s) \<noteq> dot"
  using hd_dropWhile [of "\<lambda>c. c = dot" "rev s"] by (simp add: rstrip_dot_def last_rev)

lemma rstrip_dot_hd: "rstrip_dot s \<noteq> [] \<Longrightarrow> hd (rstrip_dot s) = hd s"
proof -
  assume ne: "rstrip_dot s \<noteq> []"
  have "suffix (dropWhile (\<lambda>c. c = dot) (rev s)) (rev s)" by (rule suffix_dropWhile)
  then obtain ws where "rev s = ws @ dropWhile (\<lambda>c. c = dot) (rev s)" by (auto simp: suffix_def)
  then have "s = rstrip_dot s @ rev ws"
    unfolding rstrip_dot_def by (metis rev_append rev_rev_ident)
  with ne show ?thesis by (metis hd_append2)
qed

lemma rstrip_dot_id:
  assumes "s = [] \<or> last s \<noteq> dot"
  shows "rstrip_dot s = s"
proof -
  from assms have "dropWhile (\<lambda>c. c = dot) (rev s) = rev s"
    by (auto simp: dropWhile_eq_self_iff hd_rev)
  then show ?thesis by (simp add: rstrip_dot_def)
qed

lemma try_patterns_SomeD:
  "try_patterns pats text = Some a \<Longrightarrow> a \<noteq> [] \<and> (\<exists>g. a = rstrip_dot (strip g))"
  by (induction pats) (auto simp: Let_def split: option.splits if_splits)

lemma extract_answer_from_text_SomeD:
  assumes "extract_answer_from_text text = Some a"
  shows "a \<noteq> []" and "last a \<noteq> dot" and "\<not> is_space (hd a)"
proof -
  from assms have "try_patterns [pattern1, pattern2, pattern3] text = Some a"
    by (simp add: extract_answer_from_text_def split: if_splits)
  then obtain g where a: "a \<noteq> []" "a = rstrip_dot (strip g)"
    using try_patterns_SomeD by blast
  then show "a \<noteq> []" and "last a \<noteq> dot" by (auto simp: rstrip_dot_last)
  from a have "hd a = hd (strip g)" by (simp add: rstrip_dot_hd)
  moreover from a have "strip g \<noteq> []" by (auto simp: rstrip_dot_def)
  ultimately show "\<not> is_space (hd a)" by (simp add: strip_ends)
qed

lemma phrase_stage_SomeD:
  assumes "phrase_stage text = Some r"
  shows "r \<noteq> []" and "strip r = r"
proof -
  from assms obtain a where a: "extract_answer_from_text text = Some a" and r: "r = strip a"
    by (auto simp: phrase_stage_def split: option.splits if_splits)
  from extract_answer_from_text_SomeD [OF a] have "a \<noteq> []" "\<not> is_space (hd a)" by auto
  then have "\<exists>c\<in>set a. \<not> is_space c" by (metis hd_in_set)
  then show "r \<noteq> []" using r by (simp add: strip_nonempty_iff)
  show "strip r = r" using r by (simp add: strip_strip)
qed

lemma boxed_stage_SomeD:
  assumes "boxed_stage text = Some r"
  shows "r \<noteq> []" and "strip r = r"
  using assms by (auto simp: boxed_stage_def strip_strip split: option.splits if_splits)

lemma symbolic_stage_SomeD:
  assumes "symbolic_stage mv text = Some r"
  shows "r \<noteq> []" and "strip r = r"
  using assms
  by (auto simp: symbolic_stage_def strip_strip Let_def split: sum.splits if_splits)

subsection \<open>Searching past a prefix of the text\<close>

lemma re_search_skip:
  assumes "\<And>zs. zs \<noteq> [] \<Longrightarrow> suffix zs p \<Longrightarrow> pat (zs @ suf) = None"
  shows "re_search pat (p @ suf) = re_search pat suf"
  using assms
proof (induction p)
  case Nil
  then show ?case by simp
next
  case (Cons c cs)
  have "pat ((c # cs) @ suf) = None" by (rule Cons.prems) simp_all
  moreover have "re_search pat (cs @ suf) = re_search pat suf"
    by (rule Cons.IH) (simp add: Cons.prems suffix_ConsI)
  ultimately show ?case by simp
qed

lemma re_search_head:
  "pat (c # cs) = Some g \<Longrightarrow> re_search pat (c # cs) = Some g"
  by simp

lemma prefix_not_straddling:
  assumes "prefix ph (zs @ suf)" and "suf \<noteq> []" and "hd suf \<notin> set ph"
  shows "prefix ph zs"
proof -
  from assms(1) consider "prefix ph zs" | us where "ph = zs @ us" "prefix us suf"
    by (auto simp: prefix_append)
  then show ?thesis
  proof cases
    case 1
    then show ?thesis .
  next
    case 2
    show ?thesis
    proof (cases us)
      case Nil
      with 2 show ?thesis by simp
    next
      case (Cons u us')
      with 2(2) assms(2) have "u = hd suf" by (cases suf) auto
      with 2(1) Cons assms(3) show ?thesis by simp
    qed
  qed
qed

lemma match_phrase_SomeD:
  assumes "match_phrase s \<noteq> None"
  shows "\<exists>c r. s = c # r \<and> prefix ''he answer is'' r"
proof (cases s)
  case Nil
  with assms show ?thesis by (simp add: match_phrase_def)
next
  case (Cons c r)
  have "match_phrase (c # r) =
      (if (c = CHR ''T'' \<or> c = CHR ''t'') \<and> prefix ''he answer is'' r then Some (drop 12 r) else None)"
    unfolding match_phrase_def by (simp only: list.case)
  with assms Cons have "prefix ''he answer is'' r"
    by (metis)
  with Cons show ?thesis by blast
qed

lemma match_phrase_None:
  assumes "\<not> sublist ''he answer is'' p" and "suf \<noteq> []" and "hd suf \<notin> set ''he answer is''"
    and "zs \<noteq> []" and "suffix zs p"
  shows "match_phrase (zs @ suf) = None"
proof (rule ccontr)
  define ph where "ph = ''he answer is''"
  assume "match_phrase (zs @ suf) \<noteq> None"
  then obtain c r where r: "zs @ suf = c # r" and p: "prefix ph r"
    unfolding ph_def using match_phrase_SomeD by blast
  from assms(4) obtain zs' where zs: "zs = c # zs'" using r by (cases zs) auto
  with r have "r = zs' @ suf" by simp
  with p have "prefix ph (zs' @ suf)" by simp
  then have "prefix ph zs'"
    using assms(2,3) unfolding ph_def by (rule prefix_not_straddling)
  then have "sublist ph zs'" by (rule prefix_imp_sublist)
  moreover have "suffix zs' p" using assms(5) zs by (metis suffix_ConsD)
  ultimately have "sublist ph p"
    by (metis suffix_imp_sublist sublist_order.order_trans)
  with assms(1) show False by (simp add: ph_def)
qed

lemma answer_is_skip:
  assumes "\<not> sublist ''he answer is'' p" and "suf \<noteq> []" and "hd suf \<notin> set ''he answer is''"
  shows "re_search (answer_is cont) (p @ suf) = re_search (answer_is cont) suf"
proof (rule re_search_skip)
  fix zs :: string
  assume "zs \<noteq> []" and "suffix zs p"
  with assms have "match_phrase (zs @ suf) = None" by (intro match_phrase_None)
  then show "answer_is cont (zs @ suf) = None" by (simp add: answer_is_def)
qed

lemma pattern12_skip:
  assumes "\<not> sublist ''he answer is'' p" and "suf \<noteq> []" and "hd suf \<notin> set ''he answer is''"
  shows "re_search pattern1 (p @ suf) = re_search pattern1 suf"
    and "re_search pattern2 (p @ suf) = re_search pattern2 suf"
proof -
  have 1: "pattern1 = answer_is lazy_group" by (rule ext) (simp add: pattern1_def)
  have 2: "pattern2 = answer_is greedy_group" by (rule ext) (simp add: pattern2_def)
  show "re_search pattern1 (p @ suf) = re_search pattern1 suf"
    unfolding 1 using assms by (rule answer_is_skip)
  show "re_search pattern2 (p @ suf) = re_search pattern2 suf"
    unfolding 2 using assms by (rule answer_is_skip)
qed

subsection \<open>The lazy group\<close>

lemma opt_dot_end_cases:
  "opt_dot_end r \<longleftrightarrow> r = [] \<or> r = [dot] \<or> r = [newline] \<or> r = [dot, newline]"
  by (cases r) (auto simp: opt_dot_end_def at_end_def dot_def newline_def)

lemma lazy_more_SomeD:
  "lazy_more g r = Some g' \<Longrightarrow>
   \<exists>a t. g' = g @ a \<and> r = a @ t \<and> newline \<notin> set a
     \<and> (t = [] \<or> t = [dot] \<or> t = [newline] \<or> t = [dot, newline])"
proof (induction r arbitrary: g)
  case Nil
  then show ?case by (simp split: if_splits)
next
  case (Cons c cs)
  show ?case
  proof (cases "opt_dot_end (c # cs)")
    case True
    with Cons.prems have "g' = g" by simp
    moreover from True have "c # cs = [dot] \<or> c # cs = [newline] \<or> c # cs = [dot, newline]"
      by (simp add: opt_dot_end_cases)
    ultimately show ?thesis by (intro exI [of _ "[]"] exI [of _ "c # cs"]) simp
  next
    case False
    with Cons.prems have c: "c \<noteq> newline" and "lazy_more (g @ [c]) cs = Some g'"
      by (auto split: if_splits)
    from Cons.IH [OF this(2)] obtain a t where
      "g' = (g @ [c]) @ a" "cs = a @ t" "newline \<notin> set a"
      "t = [] \<or> t = [dot] \<or> t = [newline] \<or> t = [dot, newline]" by blast
    with c show ?thesis by (intro exI [of _ "c # a"] exI [of _ t]) simp
  qed
qed

lemma lazy_group_SomeD:
  assumes "lazy_group r = Some g"
  shows "\<exists>t. r = g @ t \<and> newline \<notin> set g
     \<and> (t = [] \<or> t = [dot] \<or> t = [newline] \<or> t = [dot, newline])"
proof -
  from assms obtain c cs where r: "r = c # cs" and c: "c \<noteq> newline"
    and m: "lazy_more [c] cs = Some g"
    by (auto simp: lazy_group_def split: list.splits if_splits)
  from lazy_more_SomeD [OF m] obtain a t where
    "g = [c] @ a" "cs = a @ t" "newline \<notin> set a"
    "t = [] \<or> t = [dot] \<or> t = [newline] \<or> t = [dot, newline]" by blast
  with r c show ?thesis by (intro exI [of _ t]) simp
qed

lemma lazy_group_newline_None:
  assumes "newline \<in> set r" and "r \<noteq> []" and "last r \<noteq> dot" and "last r \<noteq> newline"
  shows "lazy_group r = None"
proof (rule ccontr)
  assume "lazy_group r \<noteq> None"
  then obtain g where "lazy_group r = Some g" by auto
  from lazy_group_SomeD [OF this] obtain t where
    t: "r = g @ t" "newline \<notin> set g" "t = [] \<or> t = [dot] \<or> t = [newline] \<or> t = [dot, newline]"
    by blast
  from t(1,3) assms(3,4) have "t = []" by auto
  with t assms(1) show False by simp
qed

lemma lazy_more_dot:
  "newline \<notin> set a \<Longrightarrow> lazy_more g (a @ [dot]) = Some (g @ a)"
proof (induction a arbitrary: g)
  case Nil
  then show ?case by (simp add: opt_dot_end_cases)
next
  case (Cons c cs)
  then have c: "c \<noteq> newline" and n: "newline \<notin> set cs" by auto
  have "\<not> opt_dot_end (c # cs @ [dot])"
    by (auto simp: opt_dot_end_cases dot_def newline_def)
  with c Cons.IH [OF n] show ?case by simp
qed

lemma lazy_group_dot:
  "a \<noteq> [] \<Longrightarrow> newline \<notin> set a \<Longrightarrow> lazy_group (a @ [dot]) = Some a"
  by (cases a) (auto simp: lazy_group_def lazy_more_dot)

subsection \<open>Stripping a text with a known end\<close>

lemma strip_text:
  assumes "suf \<noteq> []" and "\<not> is_space (last suf)"
    and "(\<exists>c\<in>set pre. \<not> is_space c) \<or> \<not> is_space (hd suf)"
  shows "strip (pre @ suf) = dropWhile is_space pre @ suf"
proof -
  have "strip (pre @ suf) = dropWhile is_space (pre @ suf)"
    using assms(1,2) by (rule strip_append_keep)
  also have "\<dots> = dropWhile is_space pre @ suf"
  proof (cases "\<forall>c\<in>set pre. is_space c")
    case True
    with assms(3) have "\<not> is_space (hd suf)" by blast
    with assms(1) have "dropWhile is_space suf = suf" by (simp add: dropWhile_eq_self_iff)
    with True show ?thesis by (simp add: dropWhile_append)
  next
    case False
    then show ?thesis by (auto simp: dropWhile_append)
  qed
  finally show ?thesis .
qed

lemma not_sublist_dropWhile: "\<not> sublist ph p \<Longrightarrow> \<not> sublist ph (dropWhile P p)"
  by (metis sublist_dropWhile sublist_order.order_trans)

subsection \<open>The pattern of the marker\<close>

lemma pattern3_None:
  assumes "prefix ''#### '' (zs @ suf) \<Longrightarrow> \<exists>b. zs = ''#### '' @ b \<and> newline \<in> set (b @ suf)"
    and "suf \<noteq> []" and "last suf \<noteq> dot" and "last suf \<noteq> newline"
  shows "pattern3 (zs @ suf) = None"
proof (cases "prefix ''#### '' (zs @ suf)")
  case False
  then show ?thesis by (simp only: pattern3_def if_False)
next
  case True
  from assms(1) [OF True] obtain b where b: "zs = ''#### '' @ b" "newline \<in> set (b @ suf)"
    by blast
  then have d: "drop 5 (zs @ suf) = b @ suf" by simp
  have "lazy_group (b @ suf) = None"
    using b(2) assms(2-4) by (intro lazy_group_newline_None) simp_all
  with True d show ?thesis by (simp only: pattern3_def if_True)
qed

lemma hash_not_straddling:
  assumes "prefix ''#### '' (zs @ ''#### 17'')" and "zs \<noteq> []"
  shows "prefix ''#### '' zs"
proof -
  define ph where "ph = ''#### ''"
  define suf where "suf = ''#### 17''"
  from assms(1) have "prefix ph (zs @ suf)" by (simp only: ph_def suf_def)
  then have "prefix ph zs \<or> (\<exists>us. ph = zs @ us \<and> prefix us suf)"
    by (simp only: prefix_append)
  then consider "prefix ph zs" | us where "ph = zs @ us" "prefix us suf" "us \<noteq> []"
    by (metis append_Nil2 prefix_order.order_refl)
  then have "prefix ph zs"
  proof cases
    case 1
    then show ?thesis .
  next
    case 2
    have "length ph = 5" by (simp add: ph_def)
    moreover from 2(1) have "length ph = length zs + length us" by simp
    moreover from assms(2) have "0 < length zs" by simp
    ultimately have l: "length us \<le> 4" by linarith
    from 2(2) obtain ws where "suf = us @ ws" by (auto simp: prefix_def)
    then have "us = take (length us) suf" by simp
    then have "set us \<subseteq> set (take 4 suf)"
      using l set_take_subset_set_take [of "length us" 4 suf] by simp
    moreover have "set (take 4 suf) = {CHR ''#''}" by (simp add: suf_def)
    moreover have "last us \<in> set us" using 2(3) by simp
    moreover have "last ph = CHR '' ''" by (simp add: ph_def)
    moreover from 2(1,3) have "last ph = last us" by simp
    ultimately have "CHR '' '' = CHR ''#''" by auto
    then show ?thesis by simp
  qed
  then show ?thesis by (simp only: ph_def)
qed

subsection \<open>A group that is never closed\<close>

lemma unclosed_no_brace:
  "lbrace \<notin> set s \<Longrightarrow> rbrace \<notin> set s \<Longrightarrow> unclosed_from d s = (0 < d)"
  by (induction s) auto

lemma unclosed_append:
  "unclosed_from d X \<Longrightarrow> lbrace \<notin> set s \<Longrightarrow> rbrace \<notin> set s \<Longrightarrow> unclosed_from d (X @ s)"
  by (induction X arbitrary: d) (auto simp: unclosed_no_brace)

lemma unclosed_scan: "unclosed_from d r \<Longrightarrow> brace_scan (int d) i r = None"
proof (induction r arbitrary: d i)
  case Nil
  then show ?case by simp
next
  case (Cons c cs)
  show ?case
  proof (cases "c = lbrace")
    case True
    with Cons.prems have "unclosed_from (Suc d) cs" by simp
    then have "brace_scan (int (Suc d)) (Suc i) cs = None" by (rule Cons.IH)
    moreover have "int d + 1 = int (Suc d)" by simp
    ultimately have "brace_scan (int d + 1) (Suc i) cs = None" by (simp only:)
    with True show ?thesis by (simp add: Let_def)
  next
    case False
    show ?thesis
    proof (cases "c = rbrace")
      case True
      with False Cons.prems have d: "1 < d" and u: "unclosed_from (d - 1) cs" by auto
      from u have "brace_scan (int (d - 1)) (Suc i) cs = None" by (rule Cons.IH)
      moreover from d have "int d - 1 = int (d - 1)" by simp
      ultimately have "brace_scan (int d - 1) (Suc i) cs = None" by (simp only:)
      moreover from d have "int d - 1 \<noteq> 0" by simp
      ultimately show ?thesis using True False by (simp add: Let_def)
    next
      case F: False
      with False Cons.prems have "unclosed_from d cs" by simp
      then have "brace_scan (int d) (Suc i) cs = None" by (rule Cons.IH)
      with False F show ?thesis by (simp add: Let_def)
    qed
  qed
qed

subsection \<open>The loop over the patterns\<close>

lemma try_patterns_first:
  assumes "re_search pat (strip text) = Some g" and "rstrip_dot (strip g) \<noteq> []"
  shows "try_patterns (pat # pats) text = Some (rstrip_dot (strip g))"
  using assms by (simp add: Let_def)

lemma lazy_group_newline_inside:
  assumes "newline \<in> set (butlast r)" and "last r \<noteq> newline"
  shows "lazy_group r = None"
proof (rule ccontr)
  assume "lazy_group r \<noteq> None"
  then obtain g where "lazy_group r = Some g" by auto
  from lazy_group_SomeD [OF this] obtain t where
    t: "r = g @ t" "newline \<notin> set g" "t = [] \<or> t = [dot] \<or> t = [newline] \<or> t = [dot, newline]"
    by blast
  from t(1,3) assms(2) have "t = [] \<or> t = [dot]" by auto
  with t(1) have "butlast r = g \<or> butlast r = butlast g" by (auto simp: butlast_append)
  with assms(1) t(2) show False by (auto dest: in_set_butlastD)
qed

lemma lazy_more_plain:
  "newline \<notin> set a \<Longrightarrow> a = [] \<or> last a \<noteq> dot \<Longrightarrow> lazy_more g a = Some (g @ a)"
proof (induction a arbitrary: g)
  case Nil
  then show ?case by (simp add: opt_dot_end_cases)
next
  case (Cons c cs)
  then have c: "c \<noteq> newline" and n: "newline \<notin> set cs" by auto
  from Cons.prems(2) have l: "cs = [] \<or> last cs \<noteq> dot" by (cases "cs = []") auto
  from Cons.prems have "\<not> opt_dot_end (c # cs)"
    by (auto simp: opt_dot_end_cases)
  with c Cons.IH [OF n l] show ?case by simp
qed

lemma lazy_group_plain:
  "a \<noteq> [] \<Longrightarrow> newline \<notin> set a \<Longrightarrow> last a \<noteq> dot \<Longrightarrow> lazy_group a = Some a"
proof (cases a)
  case Nil
  assume "a \<noteq> []"
  with Nil show ?thesis by simp
next
  case (Cons c cs)
  assume n: "newline \<notin> set a" and l: "last a \<noteq> dot"
  from n Cons have c: "c \<noteq> newline" and ncs: "newline \<notin> set cs" by auto
  from l Cons have "cs = [] \<or> last cs \<noteq> dot" by (cases "cs = []") auto
  with ncs have "lazy_more [c] cs = Some ([c] @ cs)" by (rule lazy_more_plain)
  with c Cons show ?thesis by (simp add: lazy_group_def)
qed

lemma after_seps_None:
  "(\<And>k. 0 < k \<Longrightarrow> k \<le> n \<Longrightarrow> cont (drop k r) = None) \<Longrightarrow> after_seps cont n r = None"
  by (induction n) simp_all

lemma after_seps_first:
  "cont (drop (Suc n) r) = Some g \<Longrightarrow> after_seps cont (Suc n) r = Some g"
  by simp

lemma match_phrase_Cons:
  "match_phrase (c # r) =
     (if (c = CHR ''T'' \<or> c = CHR ''t'') \<and> prefix ''he answer is'' r then Some (drop 12 r) else None)"
  unfolding match_phrase_def by (simp only: list.case)

lemma match_phrase_at:
  "match_phrase (c # ''he answer is'' @ r) = (if c = CHR ''T'' \<or> c = CHR ''t'' then Some r else None)"
proof -
  define ph where "ph = ''he answer is''"
  have "length ph = 12" by (simp add: ph_def)
  then have "drop 12 (ph @ r) = r" by simp
  moreover have "prefix ph (ph @ r)" by simp
  ultimately show ?thesis
    unfolding match_phrase_Cons by (simp only: ph_def simp_thms)
qed

lemma pattern1_no_sep_None:
  assumes "takeWhile is_sep r = []"
  shows "pattern1 (c # ''he answer is'' @ r) = None"
proof (cases "c = CHR ''T'' \<or> c = CHR ''t''")
  case False
  then have "match_phrase (c # ''he answer is'' @ r) = None"
    by (simp only: match_phrase_at if_False)
  then show ?thesis by (simp only: pattern1_def answer_is_def option.case)
next
  case True
  then have "match_phrase (c # ''he answer is'' @ r) = Some r"
    by (simp only: match_phrase_at if_True)
  moreover have "after_seps lazy_group (length (takeWhile is_sep r)) r = None"
    by (simp only: assms list.size after_seps.simps)
  ultimately show ?thesis by (simp only: pattern1_def answer_is_def option.case)
qed

lemma pattern1_newline_None:
  assumes "newline \<in> set (dropWhile is_sep b) \<or> newline \<in> set (butlast suf)"
    and "suf \<noteq> []" and "\<not> is_sep (hd suf)" and "last suf \<noteq> newline"
  shows "pattern1 (c # ''he answer is'' @ b @ suf) = None"
proof (cases "c = CHR ''T'' \<or> c = CHR ''t''")
  case False
  then have "match_phrase (c # ''he answer is'' @ b @ suf) = None"
    by (simp only: match_phrase_at if_False)
  then show ?thesis by (simp only: pattern1_def answer_is_def option.case)
next
  case True
  define r where "r = b @ suf"
  define tw where "tw = takeWhile is_sep r"
  define dw where "dw = dropWhile is_sep b"
  from True have m: "match_phrase (c # ''he answer is'' @ r) = Some r"
    by (simp only: match_phrase_at if_True)
  from assms(2,3) have "dropWhile is_sep suf = suf" by (simp add: dropWhile_eq_self_iff)
  then have "dropWhile is_sep r = dw @ suf"
    unfolding r_def dw_def by (auto simp: dropWhile_append)
  then have r: "r = tw @ dw @ suf"
    unfolding tw_def by (metis takeWhile_dropWhile_id)
  have "after_seps lazy_group (length tw) r = None"
  proof (rule after_seps_None)
    fix k :: nat
    assume "0 < k" and k: "k \<le> length tw"
    from k have d: "drop k r = drop k tw @ dw @ suf" by (simp add: r)
    have "butlast (drop k r) = drop k tw @ dw @ butlast suf"
      using assms(2) by (simp add: d butlast_append)
    with assms(1) have "newline \<in> set (butlast (drop k r))" by (auto simp: dw_def)
    moreover have "last (drop k r) = last suf" using assms(2) by (simp add: d)
    ultimately show "lazy_group (drop k r) = None"
      using assms(4) by (intro lazy_group_newline_inside) simp_all
  qed
  with m show ?thesis
    unfolding r_def tw_def by (simp only: pattern1_def answer_is_def option.case r_def)
qed

lemma pattern1_last:
  assumes "c = CHR ''T'' \<or> c = CHR ''t''"
    and "seps \<noteq> []" and "\<forall>x\<in>set seps. is_sep x"
    and "A \<noteq> []" and "newline \<notin> set A" and "\<not> is_sep (hd A)" and "last A \<noteq> dot"
    and "t = [] \<or> t = [dot]"
  shows "pattern1 (c # ''he answer is'' @ seps @ A @ t) = Some A"
proof -
  define r where "r = seps @ A @ t"
  from assms(1) have m: "match_phrase (c # ''he answer is'' @ r) = Some r"
    by (simp only: match_phrase_at if_True)
  from assms(4) obtain x A' where x: "A = x # A'" by (cases A) auto
  with assms(6) have "\<not> is_sep x" by simp
  then have "takeWhile is_sep (A @ t) = []" by (simp add: x)
  with assms(3) have "takeWhile is_sep r = seps" by (simp add: r_def)
  moreover from assms(2) obtain n where n: "length seps = Suc n" by (cases seps) auto
  ultimately have l: "length (takeWhile is_sep r) = Suc n" by simp
  have "drop (Suc n) r = A @ t" using n by (simp add: r_def)
  moreover have "lazy_group (A @ t) = Some A"
    using assms(4,5,7,8) by (auto simp: lazy_group_plain lazy_group_dot)
  ultimately have "after_seps lazy_group (Suc n) r = Some A"
    by (intro after_seps_first) simp
  with m l show ?thesis
    by (simp only: pattern1_def answer_is_def option.case r_def)
qed

lemma earlier_phrases_check:
  assumes "\<forall>zs\<in>set (suffixes pre).
      (case zs of [] \<Rightarrow> True
       | c # r \<Rightarrow> (c = CHR ''T'' \<or> c = CHR ''t'') \<and> prefix ''he answer is'' r
           \<longrightarrow> (let b = drop 12 r in
                 b = [] \<or> \<not> is_sep (hd b) \<or> newline \<in> set (dropWhile is_sep b @ seps)))"
  shows "\<forall>a c b. pre = a @ c # ''he answer is'' @ b \<and> (c = CHR ''T'' \<or> c = CHR ''t'')
      \<longrightarrow> b = [] \<or> \<not> is_sep (hd b) \<or> newline \<in> set (dropWhile is_sep b @ seps)"
proof (intro allI impI)
  fix a :: string and c :: char and b :: string
  define ph where "ph = ''he answer is''"
  assume "pre = a @ c # ''he answer is'' @ b \<and> (c = CHR ''T'' \<or> c = CHR ''t'')"
  then have e: "pre = a @ c # ph @ b" and c: "c = CHR ''T'' \<or> c = CHR ''t''"
    by (simp_all only: ph_def)
  from e have "c # ph @ b \<in> set (suffixes pre)" by (simp add: suffix_def)
  with assms have "(c = CHR ''T'' \<or> c = CHR ''t'') \<and> prefix ph (ph @ b)
      \<longrightarrow> (let b = drop 12 (ph @ b) in
            b = [] \<or> \<not> is_sep (hd b) \<or> newline \<in> set (dropWhile is_sep b @ seps))"
    unfolding ph_def by fastforce
  moreover have "length ph = 12" by (simp add: ph_def)
  ultimately show "b = [] \<or> \<not> is_sep (hd b) \<or> newline \<in> set (dropWhile is_sep b @ seps)"
    using c by (simp add: Let_def)
qed

lemma suffix_hash_split:
  assumes "suffix zs p" and "suffix p pre" and "zs = ph @ b"
  shows "\<exists>a. pre = a @ ph @ b"
  using assms by (metis append.assoc suffix_def)

section \<open>The claims on the boxed stage\<close>

text \<open>
  C1, amended. Let the last \<^verbatim>\<open>\boxed\<close> marker of a text (or, when \<^verbatim>\<open>\boxed\<close> occurs nowhere
  in it, the last \<^verbatim>\<open>\fbox\<close> marker) be followed at once by a brace-balanced group
  \<^verbatim>\<open>{X}\<close>, where \<open>X\<close> may hold nested braces, and let \<open>X\<close> hold a character that is not
  whitespace. Then the boxed stage finds \<open>X\<close> stripped of the whitespace around it: all of
  the nested expression, not a prefix cut at an inner closing brace.
\<close>

theorem boxed_stage_balanced_group:
  assumes "m = boxed_marker \<or>
      (m = fbox_marker \<and> \<not> sublist boxed_marker (pre @ m @ lbrace # X @ rbrace # post))"
    and "\<not> sublist m (X @ rbrace # post)"
    and "balanced X"
    and "strip X \<noteq> []"
  shows "boxed_stage (pre @ m @ lbrace # X @ rbrace # post) = Some (strip X)"
  using boxed_stage_group [OF assms(1-3)] assms(4) by simp

text \<open>An instance with nested braces, for both markers.\<close>

theorem boxed_stage_balanced_group_witness:
  "balanced (bslash # ''frac{a}{b} '')
   \<and> boxed_stage (''so '' @ boxed_marker @ lbrace # (bslash # ''frac{a}{b} '') @ rbrace # '' holds'')
     = Some (bslash # ''frac{a}{b}'')
   \<and> boxed_stage (''so '' @ fbox_marker @ lbrace # (bslash # ''frac{a}{b} '') @ rbrace # '' holds'')
     = Some (bslash # ''frac{a}{b}'')"
proof -
  let ?X = "bslash # ''frac{a}{b} ''"
  have b: "balanced ?X" by code_simp
  have s: "strip ?X = bslash # ''frac{a}{b}''" by code_simp
  have n: "\<not> sublist boxed_marker (?X @ rbrace # '' holds'')" by code_simp
  have f: "\<not> sublist boxed_marker (''so '' @ fbox_marker @ lbrace # ?X @ rbrace # '' holds'')"
    by code_simp
  have g: "\<not> sublist fbox_marker (?X @ rbrace # '' holds'')" by code_simp
  have "boxed_stage (''so '' @ boxed_marker @ lbrace # ?X @ rbrace # '' holds'') = Some (strip ?X)"
    using n b by (intro boxed_stage_balanced_group) (simp_all add: s)
  moreover
  have "boxed_stage (''so '' @ fbox_marker @ lbrace # ?X @ rbrace # '' holds'') = Some (strip ?X)"
    using f g b by (intro boxed_stage_balanced_group) (simp_all add: s)
  ultimately show ?thesis using b s by simp
qed

text \<open>
  The claim as it was stated promises a found answer for every balanced group. The group
  of \<^verbatim>\<open>\boxed{}\<close> is balanced and its content strips to nothing, so the stage finds
  nothing.
\<close>

theorem boxed_empty_group_not_found:
  "balanced [] \<and> boxed_stage (boxed_marker @ lbrace # [] @ rbrace # []) = None"
  by code_simp

text \<open>
  C2, amended. The scan starts at the last occurrence of \<^verbatim>\<open>\boxed\<close>, and at the last
  occurrence of \<^verbatim>\<open>\fbox\<close> only when \<^verbatim>\<open>\boxed\<close> occurs nowhere; with neither in the text
  the stage finds nothing. The start is the index \<open>i\<close> of \<^const>\<open>boxed_start\<close>: the marker
  stands at \<open>i\<close> and at no later index, and the span and the answer are those of the text
  from \<open>i\<close> on, so what comes before the last marker has no part in them. Hence, in a text
  with several \<^verbatim>\<open>\boxed{...}\<close> groups whose last group is balanced, the boxed stage finds
  the content \<open>X\<close> of the last group, stripped of whitespace, when that is not blank, and
  nothing when it is blank. When it is not blank, the stripped content is the answer of
  the \<^verbatim>\<open>extract_answer\<close> of mugglemath, with or without \<^verbatim>\<open>math_verify\<close>, and of the
  \<^verbatim>\<open>extract_answer\<close> of metamath and mumath when the phrase stage finds nothing.
\<close>

theorem boxed_start_last_occurrence:
  "(case boxed_start s of
      None \<Rightarrow>
        \<not> sublist boxed_marker s \<and> \<not> sublist fbox_marker s
        \<and> last_boxed_only_string s = None \<and> boxed_stage s = None
    | Some i \<Rightarrow>
        (let m = (if sublist boxed_marker s then boxed_marker else fbox_marker) in
           prefix m (drop i s) \<and> (\<forall>j. i < j \<longrightarrow> \<not> prefix m (drop j s)))
        \<and> last_boxed_only_string s = last_boxed_only_string (drop i s)
        \<and> boxed_stage s = boxed_stage (drop i s))
   \<and> (balanced X \<and> \<not> sublist boxed_marker (X @ rbrace # post) \<longrightarrow>
        boxed_stage (p1 @ boxed_marker @ lbrace # Y @ rbrace # p2 @ boxed_marker @ lbrace # X @ rbrace # post)
        = (if strip X \<noteq> [] then Some (strip X) else None)
        \<and> (strip X \<noteq> [] \<longrightarrow>
          extract_answer_mugglemath mv
            (p1 @ boxed_marker @ lbrace # Y @ rbrace # p2 @ boxed_marker @ lbrace # X @ rbrace # post)
          = strip X
          \<and> (phrase_stage
               (p1 @ boxed_marker @ lbrace # Y @ rbrace # p2 @ boxed_marker @ lbrace # X @ rbrace # post)
              = None \<longrightarrow>
             extract_answer_metamath mv
               (p1 @ boxed_marker @ lbrace # Y @ rbrace # p2 @ boxed_marker @ lbrace # X @ rbrace # post)
             = strip X)))"
proof -
  let ?t = "p1 @ boxed_marker @ lbrace # Y @ rbrace # p2 @ boxed_marker @ lbrace # X @ rbrace # post"
  have A: "case boxed_start s of
      None \<Rightarrow>
        \<not> sublist boxed_marker s \<and> \<not> sublist fbox_marker s
        \<and> last_boxed_only_string s = None \<and> boxed_stage s = None
    | Some i \<Rightarrow>
        (let m = (if sublist boxed_marker s then boxed_marker else fbox_marker) in
           prefix m (drop i s) \<and> (\<forall>j. i < j \<longrightarrow> \<not> prefix m (drop j s)))
        \<and> last_boxed_only_string s = last_boxed_only_string (drop i s)
        \<and> boxed_stage s = boxed_stage (drop i s)"
  proof (cases "boxed_start s")
    case None
    then have "rfind boxed_marker s = None" "rfind fbox_marker s = None"
      by (auto simp: boxed_start_def split: option.splits)
    with None show ?thesis
      by (simp add: rfind_None_iff last_boxed_only_string_def boxed_stage_def)
  next
    case (Some i)
    have l: "last_boxed_only_string s = last_boxed_only_string (drop i s)"
      using Some by (rule last_boxed_drop)
    then have b: "boxed_stage s = boxed_stage (drop i s)" by (simp add: boxed_stage_def)
    have "prefix m (drop i s) \<and> (\<forall>j. i < j \<longrightarrow> \<not> prefix m (drop j s))"
      if "m = (if sublist boxed_marker s then boxed_marker else fbox_marker)" for m
    proof (cases "sublist boxed_marker s")
      case True
      then obtain k where k: "rfind boxed_marker s = Some k"
        using rfind_None_iff [of boxed_marker s] by auto
      with Some have "k = i" by (simp add: boxed_start_def)
      with k that True show ?thesis
        using rfind_SomeD [of boxed_marker s i] rfind_last_occurrence [of boxed_marker s i]
        by (auto simp: marker_nonempty)
    next
      case False
      then have "rfind boxed_marker s = None" by (simp add: rfind_None_iff)
      with Some have "rfind fbox_marker s = Some i" by (simp add: boxed_start_def)
      with that False show ?thesis
        using rfind_SomeD [of fbox_marker s i] rfind_last_occurrence [of fbox_marker s i]
        by (auto simp: marker_nonempty)
    qed
    with Some l b show ?thesis by (simp add: Let_def)
  qed
  have B: "boxed_stage ?t = (if strip X \<noteq> [] then Some (strip X) else None)"
    if X: "balanced X" and n: "\<not> sublist boxed_marker (X @ rbrace # post)"
  proof -
    have "boxed_stage ((p1 @ boxed_marker @ lbrace # Y @ rbrace # p2) @ boxed_marker @ lbrace # X @ rbrace # post)
        = (if strip X \<noteq> [] then Some (strip X) else None)"
      using _ n X by (rule boxed_stage_group) simp
    then show ?thesis by simp
  qed
  have ne: "?t \<noteq> []" by simp
  have C: "extract_answer_mugglemath mv ?t = strip X"
    if "boxed_stage ?t = Some (strip X)"
    unfolding extract_answer_mugglemath_def using that by (simp only: ne if_False option.case)
  have D: "extract_answer_metamath mv ?t = strip X"
    if "boxed_stage ?t = Some (strip X)" and "phrase_stage ?t = None"
    unfolding extract_answer_metamath_def using that by (simp only: ne if_False option.case)
  from A B C D show ?thesis by presburger
qed

text \<open>
  A text with two groups: the scan starts at index 14, and the answer is that of the second,
  also with a \<^verbatim>\<open>parse\<close> that returns another one.
\<close>

theorem boxed_start_last_occurrence_witness:
  "boxed_start (''a '' @ boxed_marker @ lbrace # ''1'' @ rbrace # '' b '' @ boxed_marker @ lbrace # ''2 '' @ rbrace # ''.'') = Some 14
   \<and> balanced ''2 '' \<and> \<not> sublist boxed_marker (''2 '' @ rbrace # ''.'')
   \<and> boxed_stage (''a '' @ boxed_marker @ lbrace # ''1'' @ rbrace # '' b '' @ boxed_marker @ lbrace # ''2 '' @ rbrace # ''.'')
     = boxed_stage (boxed_marker @ lbrace # ''2 '' @ rbrace # ''.'')
   \<and> boxed_stage (''a '' @ boxed_marker @ lbrace # ''1'' @ rbrace # '' b '' @ boxed_marker @ lbrace # ''2 '' @ rbrace # ''.'')
     = Some ''2''
   \<and> extract_answer_mugglemath one_math_verify
       (''a '' @ boxed_marker @ lbrace # ''1'' @ rbrace # '' b '' @ boxed_marker @ lbrace # ''2 '' @ rbrace # ''.'')
     = ''2''"
proof -
  let ?s = "''a '' @ boxed_marker @ lbrace # ''1'' @ rbrace # '' b '' @ boxed_marker @ lbrace # ''2 '' @ rbrace # ''.''"
  have h: "boxed_start ?s = Some 14" by code_simp
  have d: "drop 14 ?s = boxed_marker @ lbrace # ''2 '' @ rbrace # ''.''" by code_simp
  have b: "balanced ''2 ''" by code_simp
  have n: "\<not> sublist boxed_marker (''2 '' @ rbrace # ''.'')" by code_simp
  have t: "strip ''2 '' = ''2''" by code_simp
  then have ne: "strip ''2 '' \<noteq> []" by simp
  note T = boxed_start_last_occurrence [of ?s "''2 ''" "''.''" "''a ''" "''1''" "'' b ''" one_math_verify]
  from T [THEN conjunct1] have e: "boxed_stage ?s = boxed_stage (drop 14 ?s)"
    unfolding h option.case by blast
  from T [THEN conjunct2] b n have "boxed_stage ?s = (if strip ''2 '' \<noteq> [] then Some (strip ''2 '') else None)"
    by blast
  with t have r: "boxed_stage ?s = Some ''2''"
    by simp
  from T [THEN conjunct2] b n ne have "extract_answer_mugglemath one_math_verify ?s = strip ''2 ''"
    by blast
  with t have m: "extract_answer_mugglemath one_math_verify ?s = ''2''"
    by (simp only:)
  from e r m h d b n show ?thesis by (simp only: simp_thms)
qed

text \<open>
  The claim as it was stated has the answer equal to the content of the last group in
  every text. In \<^verbatim>\<open>\boxed{1} \boxed{ }\<close> the content of the last group is blank: the boxed
  stage finds nothing, and with a \<^verbatim>\<open>parse\<close> that returns \<^verbatim>\<open>1\<close> the answer is \<^verbatim>\<open>1\<close>.
\<close>

theorem last_blank_group_not_answer:
  "boxed_stage (boxed_marker @ lbrace # ''1'' @ rbrace # '' '' @ boxed_marker @ lbrace # '' '' @ rbrace # []) = None
   \<and> extract_answer_mugglemath one_math_verify
       (boxed_marker @ lbrace # ''1'' @ rbrace # '' '' @ boxed_marker @ lbrace # '' '' @ rbrace # []) = ''1''"
  by code_simp

text \<open>
  C4, amended. The counter \<^verbatim>\<open>num_left_braces_open\<close> starts at 0 at the marker and counts
  every brace from there on; no brace is skipped. When no brace stands between the marker
  and the first \<^verbatim>\<open>{\<close>, that brace sets the depth to 1, and the span returned ends where
  the depth first comes back to 0: at the brace that closes the balanced group.
\<close>

theorem brace_scan_counts_from_marker:
  assumes "m = boxed_marker \<or>
      (m = fbox_marker \<and> \<not> sublist boxed_marker (pre @ m @ gap @ lbrace # X @ rbrace # post))"
    and "\<not> sublist m (gap @ lbrace # X @ rbrace # post)"
    and "lbrace \<notin> set gap" and "rbrace \<notin> set gap"
    and "balanced X"
  shows "last_boxed_only_string (pre @ m @ gap @ lbrace # X @ rbrace # post)
       = Some (m @ gap @ lbrace # X @ [rbrace])"
proof -
  from assms(1,2) have "boxed_start (pre @ m @ gap @ lbrace # X @ rbrace # post) = Some (length pre)"
    by (intro boxed_start_group)
  moreover from assms(1) have "lbrace \<notin> set m" "rbrace \<notin> set m"
    by (auto simp: marker_no_brace)
  ultimately show ?thesis using assms(3-5) by (intro last_boxed_group)
qed

text \<open>An instance with text between the marker and the group, and a brace after it.\<close>

theorem brace_scan_counts_from_marker_witness:
  "last_boxed_only_string (''x = '' @ boxed_marker @ '' ab '' @ lbrace # ''1{2}3'' @ rbrace # ''}.'')
     = Some (boxed_marker @ '' ab '' @ lbrace # ''1{2}3'' @ [rbrace])"
proof -
  have "\<not> sublist boxed_marker ('' ab '' @ lbrace # ''1{2}3'' @ rbrace # ''}.'')" by code_simp
  moreover have "lbrace \<notin> set '' ab ''" "rbrace \<notin> set '' ab ''" by code_simp+
  moreover have "balanced ''1{2}3''" by code_simp
  ultimately show ?thesis by (intro brace_scan_counts_from_marker) simp_all
qed

text \<open>
  A \<^verbatim>\<open>}\<close> between the marker and the first \<^verbatim>\<open>{\<close> is counted, not skipped: in
  \<^verbatim>\<open>\boxed}{5}\<close> the depth goes to -1, 0, -1, the test for 0 is made at closing braces
  only, and no span is returned.
\<close>

theorem closing_brace_before_group_not_skipped:
  "last_boxed_only_string (boxed_marker @ rbrace # lbrace # CHR ''5'' # rbrace # []) = None
   \<and> boxed_stage (boxed_marker @ rbrace # lbrace # CHR ''5'' # rbrace # []) = None"
  by code_simp

text \<open>
  C9. When the span of \<^verbatim>\<open>last_boxed_only_string\<close> begins with \<^verbatim>\<open>\boxed\<close> and a space,
  \<^verbatim>\<open>remove_boxed\<close> returns all that follows the space, braces kept: the rule of the
  spaced prefix comes before the rules that strip a braced wrapper. The answer of the
  stage is that remainder, stripped of whitespace.
\<close>

theorem remove_boxed_spaced:
  assumes "last_boxed_only_string text = Some (boxed_marker @ '' '' @ r)"
  shows "remove_boxed (boxed_marker @ '' '' @ r) = Some r
       \<and> boxed_stage text = (if strip r \<noteq> [] then Some (strip r) else None)"
  using assms remove_boxed_spaced_prefix [of r] by (simp add: boxed_stage_def)

text \<open>The text \<^verbatim>\<open>\boxed {5}\<close> gives the answer \<^verbatim>\<open>{5}\<close>.\<close>

theorem remove_boxed_spaced_witness:
  "last_boxed_only_string (boxed_marker @ '' {5}'') = Some (boxed_marker @ '' '' @ ''{5}'')
   \<and> remove_boxed (boxed_marker @ '' '' @ ''{5}'') = Some ''{5}''
   \<and> boxed_stage (boxed_marker @ '' {5}'') = Some ''{5}''"
proof -
  have h: "last_boxed_only_string (boxed_marker @ '' {5}'') = Some (boxed_marker @ '' '' @ ''{5}'')"
    by code_simp
  have s: "strip ''{5}'' = ''{5}''" by code_simp
  from remove_boxed_spaced [OF h] h s show ?thesis by simp
qed

text \<open>
  C10. When no \<^verbatim>\<open>{\<close> stands at or after the last \<^verbatim>\<open>\boxed\<close> or \<^verbatim>\<open>\fbox\<close> marker,
  \<^verbatim>\<open>last_boxed_only_string\<close> returns \<^verbatim>\<open>None\<close>: the boxed stage finds nothing, and
  \<^verbatim>\<open>extract_answer\<close> goes on to the stage after it.
\<close>

theorem no_open_brace_no_span:
  assumes "boxed_start text = Some idx" and "lbrace \<notin> set (drop idx text)"
  shows "last_boxed_only_string text = None \<and> boxed_stage text = None
       \<and> extract_answer_mugglemath mv text = (case symbolic_stage mv text of Some ans \<Rightarrow> ans | None \<Rightarrow> [])
       \<and> extract_answer_metamath mv text =
           (case phrase_stage text of Some ans \<Rightarrow> ans
            | None \<Rightarrow> (case symbolic_stage mv text of Some ans \<Rightarrow> ans | None \<Rightarrow> []))"
proof -
  from assms(2) have "brace_scan 0 idx (drop idx text) = None"
    by (intro brace_scan_no_open) simp_all
  with assms(1) have l: "last_boxed_only_string text = None"
    by (simp add: last_boxed_only_string_def)
  then have b: "boxed_stage text = None" by (simp add: boxed_stage_def)
  from assms(1) have "text \<noteq> []" by (rule boxed_start_nonempty)
  with l b show ?thesis
    by (simp add: extract_answer_mugglemath_def extract_answer_metamath_def split: option.splits)
qed

text \<open>A bare \<^verbatim>\<open>\boxed 5\<close> at the end of a text.\<close>

theorem no_open_brace_no_span_witness:
  "boxed_start (''so '' @ boxed_marker @ '' 5'') = Some 3
   \<and> lbrace \<notin> set (drop 3 (''so '' @ boxed_marker @ '' 5''))
   \<and> last_boxed_only_string (''so '' @ boxed_marker @ '' 5'') = None
   \<and> extract_answer_mugglemath no_math_verify (''so '' @ boxed_marker @ '' 5'') = []"
proof -
  have h: "boxed_start (''so '' @ boxed_marker @ '' 5'') = Some 3" by code_simp
  have g: "lbrace \<notin> set (drop 3 (''so '' @ boxed_marker @ '' 5''))" by code_simp
  have n: "symbolic_stage no_math_verify (''so '' @ boxed_marker @ '' 5'') = None"
    by (simp add: symbolic_stage_def no_math_verify_def)
  from no_open_brace_no_span [OF h g, of no_math_verify] h g n show ?thesis by simp
qed

section \<open>The claims on \<^verbatim>\<open>extract_answer\<close>\<close>

text \<open>
  C7. \<^verbatim>\<open>extract_answer\<close> always returns a string. On the empty text it returns the empty
  string, in both orders of the stages. On any other text it returns the empty string
  exactly when every stage of its chain finds nothing. An exception of \<^verbatim>\<open>parse\<close>, or
  \<^verbatim>\<open>math_verify\<close> missing, makes the fallback stage find nothing and changes nothing
  else: the result is that of the stages before it. The phrase and boxed stages are total
  functions of the text, so they raise nothing.
\<close>

theorem extract_answer_empty_iff:
  "extract_answer_metamath mv [] = [] \<and> extract_answer_mugglemath mv [] = []
   \<and> (text \<noteq> [] \<longrightarrow>
        (extract_answer_metamath mv text = [] \<longleftrightarrow>
           phrase_stage text = None \<and> boxed_stage text = None \<and> symbolic_stage mv text = None))
   \<and> (text \<noteq> [] \<longrightarrow>
        (extract_answer_mugglemath mv text = [] \<longleftrightarrow>
           boxed_stage text = None \<and> symbolic_stage mv text = None))
   \<and> (parse mv text = Inl e \<or> \<not> available mv \<longrightarrow>
        symbolic_stage mv text = None
        \<and> extract_answer_metamath mv text =
            (case phrase_stage text of Some ans \<Rightarrow> ans
             | None \<Rightarrow> (case boxed_stage text of Some ans \<Rightarrow> ans | None \<Rightarrow> []))
        \<and> extract_answer_mugglemath mv text =
            (case boxed_stage text of Some ans \<Rightarrow> ans | None \<Rightarrow> []))"
proof (intro conjI impI)
  show "extract_answer_metamath mv [] = []" by (simp add: extract_answer_metamath_def)
  show "extract_answer_mugglemath mv [] = []" by (simp add: extract_answer_mugglemath_def)
  show "extract_answer_metamath mv text = [] \<longleftrightarrow>
      phrase_stage text = None \<and> boxed_stage text = None \<and> symbolic_stage mv text = None"
    if "text \<noteq> []"
    using that phrase_stage_SomeD [of "text"] boxed_stage_SomeD [of "text"]
      symbolic_stage_SomeD [of mv "text"]
    by (auto simp: extract_answer_metamath_def split: option.splits)
  show "extract_answer_mugglemath mv text = [] \<longleftrightarrow>
      boxed_stage text = None \<and> symbolic_stage mv text = None"
    if "text \<noteq> []"
    using that boxed_stage_SomeD [of "text"] symbolic_stage_SomeD [of mv "text"]
    by (auto simp: extract_answer_mugglemath_def split: option.splits)
  assume "parse mv text = Inl e \<or> \<not> available mv"
  then show s: "symbolic_stage mv text = None"
    by (auto simp: symbolic_stage_def)
  have p: "phrase_stage [] = None"
    by (simp add: phrase_stage_def extract_answer_from_text_def)
  have b: "boxed_stage [] = None"
    by (simp add: boxed_stage_def last_boxed_only_string_def boxed_start_def
        boxed_marker_def fbox_marker_def)
  show "extract_answer_metamath mv text =
      (case phrase_stage text of Some ans \<Rightarrow> ans
       | None \<Rightarrow> (case boxed_stage text of Some ans \<Rightarrow> ans | None \<Rightarrow> []))"
    using s p b by (cases "text = []") (simp_all add: extract_answer_metamath_def split: option.splits)
  show "extract_answer_mugglemath mv text =
      (case boxed_stage text of Some ans \<Rightarrow> ans | None \<Rightarrow> [])"
    using s b by (cases "text = []") (simp_all add: extract_answer_mugglemath_def split: option.splits)
qed

text \<open>A text without markers, with a \<^verbatim>\<open>parse\<close> that raises.\<close>

theorem extract_answer_empty_iff_witness:
  "parse raising_math_verify ''no markers here at all'' = Inl ParseException
   \<and> phrase_stage ''no markers here at all'' = None
   \<and> boxed_stage ''no markers here at all'' = None
   \<and> extract_answer_metamath raising_math_verify ''no markers here at all'' = []
   \<and> extract_answer_mugglemath raising_math_verify ''no markers here at all'' = []"
proof -
  let ?t = "''no markers here at all''"
  have e: "parse raising_math_verify ?t = Inl ParseException"
    by (simp add: raising_math_verify_def)
  have p: "phrase_stage ?t = None" by code_simp
  have b: "boxed_stage ?t = None" by code_simp
  have n: "?t \<noteq> []" by simp
  note T = extract_answer_empty_iff [of raising_math_verify ?t ParseException]
  from T e have s: "symbolic_stage raising_math_verify ?t = None" by blast
  from T n s p b have "extract_answer_metamath raising_math_verify ?t = []"
    and "extract_answer_mugglemath raising_math_verify ?t = []" by blast+
  with e p b show ?thesis by (simp only: simp_thms)
qed

text \<open>
  C8, amended. Every string returned by \<^verbatim>\<open>extract_answer\<close>, for every text and both
  orders of the stages, is stripped of whitespace: when it is not empty, neither its first
  nor its last character is whitespace. Trailing periods are removed by
  \<^verbatim>\<open>extract_answer_from_text\<close> only, whose answer never ends in a period; the boxed
  stage removes none.
\<close>

theorem extract_answer_trimmed:
  "strip (extract_answer_metamath mv text) = extract_answer_metamath mv text
   \<and> strip (extract_answer_mugglemath mv text) = extract_answer_mugglemath mv text
   \<and> (extract_answer_metamath mv text \<noteq> [] \<longrightarrow>
        \<not> is_space (hd (extract_answer_metamath mv text))
        \<and> \<not> is_space (last (extract_answer_metamath mv text)))
   \<and> (extract_answer_mugglemath mv text \<noteq> [] \<longrightarrow>
        \<not> is_space (hd (extract_answer_mugglemath mv text))
        \<and> \<not> is_space (last (extract_answer_mugglemath mv text)))
   \<and> (extract_answer_from_text text = Some a \<longrightarrow> a \<noteq> [] \<and> last a \<noteq> dot)"
proof -
  have 1: "strip (extract_answer_metamath mv text) = extract_answer_metamath mv text"
    using phrase_stage_SomeD [of "text"] boxed_stage_SomeD [of "text"]
      symbolic_stage_SomeD [of mv "text"]
    by (auto simp: extract_answer_metamath_def strip_Nil split: option.splits)
  have 2: "strip (extract_answer_mugglemath mv text) = extract_answer_mugglemath mv text"
    using boxed_stage_SomeD [of "text"] symbolic_stage_SomeD [of mv "text"]
    by (auto simp: extract_answer_mugglemath_def strip_Nil split: option.splits)
  have 3: "\<not> is_space (hd r) \<and> \<not> is_space (last r)" if "strip r = r" "r \<noteq> []" for r
    using strip_ends [of r] that by simp
  show ?thesis
    using 1 2 3 [OF 1] 3 [OF 2] extract_answer_from_text_SomeD [of "text" a] by blast
qed

text \<open>
  An instance: \<^verbatim>\<open>extract_answer_from_text\<close> gives \<^verbatim>\<open>42\<close> and a space, and
  \<^verbatim>\<open>extract_answer\<close> strips the space.
\<close>

theorem extract_answer_trimmed_witness:
  "extract_answer_metamath no_math_verify (''The answer is: 42 ..'') = ''42''
   \<and> extract_answer_from_text (''The answer is: 42 ..'') = Some ''42 ''
   \<and> strip ''42'' = ''42''"
proof -
  let ?t = "''The answer is: 42 ..''"
  have r: "extract_answer_metamath no_math_verify ?t = ''42''" by code_simp
  have a: "extract_answer_from_text ?t = Some ''42 ''" by code_simp
  from extract_answer_trimmed [of no_math_verify ?t "''42 ''"] r
  have "strip ''42'' = ''42''" by simp
  with r a show ?thesis by (simp only: simp_thms)
qed

text \<open>
  The claim as it was stated has the period of \<^verbatim>\<open>\boxed{5.}\<close> removed. Both
  \<^verbatim>\<open>extract_answer\<close> functions return \<^verbatim>\<open>5.\<close> with its period.
\<close>

theorem boxed_period_kept:
  "extract_answer_metamath no_math_verify (boxed_marker @ lbrace # ''5.'' @ rbrace # []) = ''5.''
   \<and> extract_answer_mugglemath no_math_verify (boxed_marker @ lbrace # ''5.'' @ rbrace # []) = ''5.''"
  by code_simp

section \<open>The claims on the phrase stage\<close>

text \<open>
  C5, amended. Rule 1 matches the phrase \<^verbatim>\<open>the answer is\<close> with its first letter in
  either case and its other letters in lower case, followed by at least one colon or
  whitespace character; it takes the rest of the line up to the end of the text, without
  the period that may end it. Take a text that ends in the phrase, one or more colons or
  whitespace characters, and an answer \<open>A\<close> with or without a period after it, where \<open>A\<close>
  is on one line, is not empty, begins with neither a colon nor whitespace, and ends with
  neither whitespace nor a period. Let every earlier phrase of the text either have no
  colon or whitespace right after it, or have a newline between the end of its own colons
  and whitespace and the answer \<open>A\<close> (so that rule 1, tied to the end of the text, cannot
  match there). Then rule 1 matches at the last phrase with \<open>A\<close> as its group, and
  \<^verbatim>\<open>extract_answer_from_text\<close> returns \<open>A\<close>: \<^verbatim>\<open>42\<close> for \<^verbatim>\<open>The answer is: 42.\<close>
\<close>

theorem phrase_rule1_first_letter:
  assumes "c = CHR ''T'' \<or> c = CHR ''t''"
    and "\<forall>a c' b. pre = a @ c' # ''he answer is'' @ b \<and> (c' = CHR ''T'' \<or> c' = CHR ''t'')
           \<longrightarrow> b = [] \<or> \<not> is_sep (hd b) \<or> newline \<in> set (dropWhile is_sep b @ seps)"
    and "seps \<noteq> []" and "\<forall>x\<in>set seps. is_sep x"
    and "A \<noteq> []" and "newline \<notin> set A" and "\<not> is_sep (hd A)"
    and "\<not> is_space (last A)" and "last A \<noteq> dot"
    and "t = [] \<or> t = [dot]"
  shows "re_search pattern1 (strip (pre @ c # ''he answer is'' @ seps @ A @ t)) = Some A
       \<and> extract_answer_from_text (pre @ c # ''he answer is'' @ seps @ A @ t) = Some A"
proof -
  define ph where "ph = ''he answer is''"
  define suf where "suf = c # ph @ seps @ A @ t"
  define p where "p = dropWhile is_space pre"
  have suf: "suf \<noteq> []" "hd suf = c" by (simp_all add: suf_def)
  from assms(5,10) have ls: "last suf = last A \<or> last suf = dot"
    by (auto simp: suf_def)
  with assms(8) have lsp: "\<not> is_space (last suf)" by (auto simp: is_space_def dot_def)
  then have lnl: "last suf \<noteq> newline" by (auto simp: is_space_def newline_def)
  from assms(1) have c: "\<not> is_space c" "c \<notin> set ph"
    by (auto simp: is_space_def ph_def)
  from assms(1) have nsc: "\<not> is_sep c"
    by (auto simp: is_sep_def is_space_def)
  have st: "strip (pre @ suf) = p @ suf"
    unfolding p_def using suf(1) lsp by (rule strip_text) (simp add: suf(2) c(1))
  have "re_search pattern1 (p @ suf) = re_search pattern1 suf"
  proof (rule re_search_skip)
    fix zs :: string
    assume zs: "zs \<noteq> []" "suffix zs p"
    show "pattern1 (zs @ suf) = None"
    proof (cases "match_phrase (zs @ suf) = None")
      case True
      then show ?thesis by (simp only: pattern1_def answer_is_def option.case)
    next
      case False
      from zs(1) obtain c' zs' where z: "zs = c' # zs'" by (cases zs) auto
      with False have m: "match_phrase (c' # zs' @ suf) \<noteq> None" by simp
      then have c': "c' = CHR ''T'' \<or> c' = CHR ''t''" and pp: "prefix ph (zs' @ suf)"
        unfolding match_phrase_Cons ph_def by (metis)+
      have hs: "hd suf \<notin> set ph" by (simp add: suf(2) c(2))
      from pp suf(1) hs have "prefix ph zs'" by (rule prefix_not_straddling)
      then obtain b where b: "zs' = ph @ b" by (auto simp: prefix_def)
      have "suffix p pre" unfolding p_def by (rule suffix_dropWhile)
      with zs(2) have "suffix zs pre" by (rule suffix_order.order_trans)
      then obtain a where "pre = a @ c' # ph @ b" by (auto simp: suffix_def z b)
      with assms(2) c' consider "b = [] \<or> \<not> is_sep (hd b)"
        | "newline \<in> set (dropWhile is_sep b) \<or> newline \<in> set seps"
        unfolding ph_def by fastforce
      then have "pattern1 (c' # ''he answer is'' @ b @ suf) = None"
      proof cases
        case 1
        with suf nsc have "takeWhile is_sep (b @ suf) = []"
          by (cases b) (auto simp: takeWhile_eq_Nil_iff)
        then show ?thesis by (rule pattern1_no_sep_None)
      next
        case 2
        have "butlast suf = c # ph @ seps @ butlast (A @ t)"
          using assms(5) by (simp add: suf_def butlast_append)
        with 2 have "newline \<in> set (dropWhile is_sep b) \<or> newline \<in> set (butlast suf)"
          by auto
        then show ?thesis
          using suf(1) _ lnl by (rule pattern1_newline_None) (simp add: suf(2) nsc)
      qed
      then show ?thesis by (simp add: z b ph_def)
    qed
  qed
  also have "\<dots> = Some A"
    unfolding suf_def ph_def using assms(1,3,4,5,6,7,9,10) by (intro re_search_head pattern1_last)
  finally have 1: "re_search pattern1 (strip (pre @ suf)) = Some A" by (simp only: st)
  from assms(7) have "\<not> is_space (hd A)" by (simp add: is_sep_def)
  with assms(8) have "strip A = A" by (intro strip_id) simp
  with assms(9) have "rstrip_dot (strip A) = A" by (simp add: rstrip_dot_id)
  with 1 have "try_patterns [pattern1, pattern2, pattern3] (pre @ suf) = Some A"
    using assms(5) try_patterns_first [of pattern1 "pre @ suf" A "[pattern2, pattern3]"] by simp
  moreover have "pre @ suf \<noteq> []" using suf by simp
  ultimately have "extract_answer_from_text (pre @ suf) = Some A"
    by (simp add: extract_answer_from_text_def)
  with 1 show ?thesis by (simp only: suf_def ph_def simp_thms)
qed

text \<open>
  Two instances. In the first a phrase stands on an earlier line: rule 1 does not match
  there, and the answer is that of the last line (rule 2 alone would give
  \<^verbatim>\<open>5 and\<close>). In the second an earlier phrase on the same line has a letter right after
  it, and the last phrase has one space after it and no period.
\<close>

theorem phrase_rule1_first_letter_witness:
  "re_search pattern1 (strip ((''The answer is: 5 and'' @ [newline]) @ CHR ''t'' # ''he answer is'' @ '': '' @ ''7'' @ [dot])) = Some ''7''
   \<and> extract_answer_from_text ((''The answer is: 5 and'' @ [newline]) @ CHR ''t'' # ''he answer is'' @ '': '' @ ''7'' @ [dot]) = Some ''7''
   \<and> extract_answer_from_text (''The answer isnt 5. '' @ CHR ''T'' # ''he answer is'' @ '' '' @ ''42'' @ []) = Some ''42''"
proof -
  let ?pre = "''The answer is: 5 and'' @ [newline]"
  let ?pre2 = "''The answer isnt 5. ''"
  have "\<forall>zs\<in>set (suffixes ?pre).
      (case zs of [] \<Rightarrow> True
       | c # r \<Rightarrow> (c = CHR ''T'' \<or> c = CHR ''t'') \<and> prefix ''he answer is'' r
           \<longrightarrow> (let b = drop 12 r in
                 b = [] \<or> \<not> is_sep (hd b) \<or> newline \<in> set (dropWhile is_sep b @ '': '')))"
    by code_simp
  then have 1: "\<forall>a c' b. ?pre = a @ c' # ''he answer is'' @ b \<and> (c' = CHR ''T'' \<or> c' = CHR ''t'')
      \<longrightarrow> b = [] \<or> \<not> is_sep (hd b) \<or> newline \<in> set (dropWhile is_sep b @ '': '')"
    by (rule earlier_phrases_check)
  have 2: "\<forall>x\<in>set '': ''. is_sep x" "\<not> is_sep (hd ''7'')" "\<not> is_space (last ''7'')"
    "last ''7'' \<noteq> dot" "newline \<notin> set ''7''" by code_simp+
  have 3: "\<forall>x\<in>set '' ''. is_sep x" "\<not> is_sep (hd ''42'')" "\<not> is_space (last ''42'')"
    "last ''42'' \<noteq> dot" "newline \<notin> set ''42''" by code_simp+
  have "\<forall>zs\<in>set (suffixes ?pre2).
      (case zs of [] \<Rightarrow> True
       | c # r \<Rightarrow> (c = CHR ''T'' \<or> c = CHR ''t'') \<and> prefix ''he answer is'' r
           \<longrightarrow> (let b = drop 12 r in
                 b = [] \<or> \<not> is_sep (hd b) \<or> newline \<in> set (dropWhile is_sep b @ '' '')))"
    by code_simp
  then have 4: "\<forall>a c' b. ?pre2 = a @ c' # ''he answer is'' @ b \<and> (c' = CHR ''T'' \<or> c' = CHR ''t'')
      \<longrightarrow> b = [] \<or> \<not> is_sep (hd b) \<or> newline \<in> set (dropWhile is_sep b @ '' '')"
    by (rule earlier_phrases_check)
  have "re_search pattern1 (strip (?pre @ CHR ''t'' # ''he answer is'' @ '': '' @ ''7'' @ [dot])) = Some ''7''
      \<and> extract_answer_from_text (?pre @ CHR ''t'' # ''he answer is'' @ '': '' @ ''7'' @ [dot]) = Some ''7''"
    using 1 2 by (intro phrase_rule1_first_letter) simp_all
  moreover
  have "re_search pattern1 (strip (?pre2 @ CHR ''T'' # ''he answer is'' @ '' '' @ ''42'' @ [])) = Some ''42''
      \<and> extract_answer_from_text (?pre2 @ CHR ''T'' # ''he answer is'' @ '' '' @ ''42'' @ []) = Some ''42''"
    using 4 3 by (intro phrase_rule1_first_letter) simp_all
  ultimately show ?thesis by (simp only: simp_thms)
qed

text \<open>
  The claim as it was stated has every capitalisation matched. The patterns are
  \<^verbatim>\<open>[Tt]he answer is\<close> with no flag, so the phrase in capitals matches no rule. The
  colon or whitespace after the phrase is not optional either.
\<close>

theorem phrase_upper_case_not_matched:
  "extract_answer_from_text ''THE ANSWER IS: 42.'' = None
   \<and> extract_answer_from_text ''The answer is42.'' = None"
  by code_simp

text \<open>
  C6, amended. For every text that ends in \<^verbatim>\<open>#### 17\<close>, whose part before that holds no
  \<^verbatim>\<open>he answer is\<close>, and in which every earlier \<^verbatim>\<open>####\<close> with a space after it is
  followed by a newline further on (it stands on an earlier line),
  \<^verbatim>\<open>extract_answer_from_text\<close> returns \<^verbatim>\<open>17\<close>: rules 1 and 2 match nowhere, and the
  leftmost match of rule 3 is the marker of the last line.
\<close>

theorem marker_line_answer:
  assumes "\<not> sublist ''he answer is'' pre"
    and "\<forall>a b. pre = a @ ''#### '' @ b \<longrightarrow> newline \<in> set b"
  shows "extract_answer_from_text (pre @ ''#### 17'') = Some ''17''"
proof -
  define suf where "suf = ''#### 17''"
  define p where "p = dropWhile is_space pre"
  have suf: "suf \<noteq> []" "hd suf = CHR ''#''" "last suf = CHR ''7''"
    by (simp_all add: suf_def)
  have st: "strip (pre @ suf) = p @ suf"
    unfolding p_def using suf by (intro strip_text) (simp_all add: is_space_def)
  have np: "\<not> sublist ''he answer is'' p"
    unfolding p_def using assms(1) by (rule not_sublist_dropWhile)
  have "re_search pattern1 (p @ suf) = re_search pattern1 suf"
    using np suf by (intro pattern12_skip) simp_all
  also have "\<dots> = None" unfolding suf_def by code_simp
  finally have 1: "re_search pattern1 (strip (pre @ suf)) = None" by (simp only: st)
  have "re_search pattern2 (p @ suf) = re_search pattern2 suf"
    using np suf by (intro pattern12_skip) simp_all
  also have "\<dots> = None" unfolding suf_def by code_simp
  finally have 2: "re_search pattern2 (strip (pre @ suf)) = None" by (simp only: st)
  have "re_search pattern3 (p @ suf) = re_search pattern3 suf"
  proof (rule re_search_skip)
    fix zs :: string
    assume zs: "zs \<noteq> []" "suffix zs p"
    show "pattern3 (zs @ suf) = None"
    proof (rule pattern3_None)
      assume "prefix ''#### '' (zs @ suf)"
      then have "prefix ''#### '' zs"
        unfolding suf_def using zs(1) by (rule hash_not_straddling)
      then obtain b where b: "zs = ''#### '' @ b" by (auto simp: prefix_def)
      have "suffix p pre" unfolding p_def by (rule suffix_dropWhile)
      with zs(2) b obtain a where "pre = a @ ''#### '' @ b"
        using suffix_hash_split by blast
      with assms(2) have "newline \<in> set b" by blast
      with b show "\<exists>b. zs = ''#### '' @ b \<and> newline \<in> set (b @ suf)" by auto
    qed (simp_all add: suf dot_def newline_def)
  qed
  also have "\<dots> = Some ''17''" unfolding suf_def by code_simp
  finally have 3: "re_search pattern3 (strip (pre @ suf)) = Some ''17''" by (simp only: st)
  have "rstrip_dot (strip ''17'') = ''17''" by code_simp
  with 1 2 3 have "try_patterns [pattern1, pattern2, pattern3] (pre @ suf) = Some ''17''"
    by (simp add: Let_def)
  moreover have "pre @ suf \<noteq> []" using suf by simp
  ultimately have "extract_answer_from_text (pre @ suf) = Some ''17''"
    by (simp add: extract_answer_from_text_def)
  then show ?thesis by (simp only: suf_def)
qed

text \<open>An instance with a marker on an earlier line.\<close>

theorem marker_line_answer_witness:
  "\<not> sublist ''he answer is'' (''#### 3'' @ [newline])
   \<and> extract_answer_from_text ((''#### 3'' @ [newline]) @ ''#### 17'') = Some ''17''"
proof -
  let ?pre = "''#### 3'' @ [newline]"
  have 1: "\<not> sublist ''he answer is'' ?pre" by code_simp
  have 2: "\<forall>a b. ?pre = a @ ''#### '' @ b \<longrightarrow> newline \<in> set b"
  proof (intro allI impI)
    fix a b :: string
    assume "?pre = a @ ''#### '' @ b"
    then have "last ?pre = last (a @ ''#### '' @ b)" by (rule arg_cong)
    then have l: "last (a @ ''#### '' @ b) = newline" by simp
    show "newline \<in> set b"
    proof (cases "b = []")
      case True
      with l show ?thesis by (simp add: newline_def)
    next
      case False
      with l have "last b = newline" by simp
      with False show ?thesis by (metis last_in_set)
    qed
  qed
  from marker_line_answer [OF 1 2] 1 show ?thesis by (simp only: simp_thms)
qed

text \<open>
  The claim as it was stated holds for any prefix. A phrase on an earlier line is found by
  rule 2, which is tried before rule 3; and an earlier marker on the last line is the
  leftmost match of rule 3.
\<close>

theorem earlier_phrase_wins:
  "extract_answer_from_text (''The answer is: 5'' @ [newline] @ ''#### 17'') = Some ''5''
   \<and> extract_answer_from_text (''#### 3 '' @ ''#### 17'') = Some ''3 #### 17''"
  by code_simp

text \<open>
  C3, amended. Take a text whose last \<^verbatim>\<open>\boxed\<close> opens a group that is never closed,
  followed by the line \<^verbatim>\<open>#### 9\<close>, with no \<^verbatim>\<open>he answer is\<close> before that line. The
  \<^verbatim>\<open>extract_answer\<close> that runs the phrase stage first (metamath, mumath) returns
  \<^verbatim>\<open>9\<close>. The boxed stage finds nothing. The \<^verbatim>\<open>extract_answer\<close> that runs the boxed
  stage first (mugglemath) has no phrase stage: its result is that of the fallback stage,
  and the empty string when the fallback finds nothing.
\<close>

theorem unbalanced_boxed_then_marker:
  assumes "\<not> sublist ''he answer is'' (pre @ boxed_marker @ lbrace # X)"
    and "\<not> sublist boxed_marker (X @ newline # ''#### 9'')"
    and "unclosed_from 1 X"
  shows "extract_answer_metamath mv (pre @ boxed_marker @ lbrace # X @ newline # ''#### 9'') = ''9''
       \<and> boxed_stage (pre @ boxed_marker @ lbrace # X @ newline # ''#### 9'') = None
       \<and> extract_answer_mugglemath mv (pre @ boxed_marker @ lbrace # X @ newline # ''#### 9'')
         = (case symbolic_stage mv (pre @ boxed_marker @ lbrace # X @ newline # ''#### 9'') of
              Some ans \<Rightarrow> ans | None \<Rightarrow> [])"
proof -
  define suf where "suf = newline # ''#### 9''"
  define body where "body = pre @ boxed_marker @ lbrace # X"
  define p where "p = dropWhile is_space body"
  have whole: "pre @ boxed_marker @ lbrace # X @ newline # ''#### 9'' = body @ suf"
    by (simp add: body_def suf_def)
  have suf: "suf \<noteq> []" "hd suf = newline" "last suf = CHR ''9''"
    by (simp_all add: suf_def)
  have ne: "body @ suf \<noteq> []" using suf by simp
  \<comment> \<open>the phrase stage\<close>
  have "bslash \<in> set body" by (simp add: body_def boxed_marker_def)
  moreover have "\<not> is_space bslash" by (simp add: is_space_def bslash_def)
  ultimately have "\<exists>c\<in>set body. \<not> is_space c" by blast
  then have st: "strip (body @ suf) = p @ suf"
    unfolding p_def using suf by (intro strip_text) (simp_all add: is_space_def)
  have np: "\<not> sublist ''he answer is'' p"
    unfolding p_def using assms(1) by (fold body_def) (rule not_sublist_dropWhile)
  have hs: "hd suf \<notin> set ''he answer is''" by (simp add: suf newline_def)
  have "re_search pattern1 (p @ suf) = re_search pattern1 suf"
    using np suf(1) hs by (rule pattern12_skip)
  also have "\<dots> = None" unfolding suf_def by code_simp
  finally have 1: "re_search pattern1 (strip (body @ suf)) = None" by (simp only: st)
  have "re_search pattern2 (p @ suf) = re_search pattern2 suf"
    using np suf(1) hs by (rule pattern12_skip)
  also have "\<dots> = None" unfolding suf_def by code_simp
  finally have 2: "re_search pattern2 (strip (body @ suf)) = None" by (simp only: st)
  have "re_search pattern3 (p @ suf) = re_search pattern3 suf"
  proof (rule re_search_skip)
    fix zs :: string
    assume zs: "zs \<noteq> []" "suffix zs p"
    show "pattern3 (zs @ suf) = None"
    proof (rule pattern3_None)
      assume "prefix ''#### '' (zs @ suf)"
      then have "prefix ''#### '' zs"
        using suf(1) by (rule prefix_not_straddling) (simp add: suf newline_def)
      then obtain b where b: "zs = ''#### '' @ b" by (auto simp: prefix_def)
      moreover have "newline \<in> set (b @ suf)" by (simp add: suf_def)
      ultimately show "\<exists>b. zs = ''#### '' @ b \<and> newline \<in> set (b @ suf)" by blast
    qed (simp_all add: suf dot_def newline_def)
  qed
  also have "\<dots> = Some ''9''" unfolding suf_def by code_simp
  finally have 3: "re_search pattern3 (strip (body @ suf)) = Some ''9''" by (simp only: st)
  have r: "rstrip_dot (strip ''9'') = ''9''" by code_simp
  with 1 2 3 have "try_patterns [pattern1, pattern2, pattern3] (body @ suf) = Some ''9''"
    by (simp add: Let_def)
  with ne have "extract_answer_from_text (body @ suf) = Some ''9''"
    by (simp add: extract_answer_from_text_def)
  moreover have "strip ''9'' = ''9''" by code_simp
  ultimately have ph: "phrase_stage (body @ suf) = Some ''9''"
    by (simp add: phrase_stage_def)
  have A: "extract_answer_metamath mv (body @ suf) = ''9''"
    unfolding extract_answer_metamath_def by (simp only: ne ph if_False option.case)
  \<comment> \<open>the boxed stage\<close>
  from assms(2) have "\<not> sublist boxed_marker (lbrace # X @ suf)"
    by (simp add: marker_not_at_brace suf_def)
  then have bs: "boxed_start (pre @ boxed_marker @ lbrace # X @ suf) = Some (length pre)"
    by (rule boxed_start_boxed)
  have "unclosed_from 1 (X @ suf)"
    using assms(3) by (rule unclosed_append) (simp_all add: suf_def lbrace_def rbrace_def newline_def)
  then have "brace_scan (int 1) (Suc (length pre + length boxed_marker)) (X @ suf) = None"
    by (rule unclosed_scan)
  then have "brace_scan 0 (length pre + length boxed_marker) (lbrace # X @ suf) = None"
    by (simp add: Let_def)
  then have "brace_scan 0 (length pre) (boxed_marker @ lbrace # X @ suf) = None"
    by (simp add: brace_scan_no_brace marker_no_brace)
  moreover have "drop (length pre) (pre @ boxed_marker @ lbrace # X @ suf)
      = boxed_marker @ lbrace # X @ suf" by simp
  ultimately have "last_boxed_only_string (pre @ boxed_marker @ lbrace # X @ suf) = None"
    using bs by (simp only: last_boxed_only_string_def option.case)
  then have "last_boxed_only_string (body @ suf) = None" by (simp add: body_def)
  then have B: "boxed_stage (body @ suf) = None" by (simp add: boxed_stage_def)
  have C: "extract_answer_mugglemath mv (body @ suf)
      = (case symbolic_stage mv (body @ suf) of Some ans \<Rightarrow> ans | None \<Rightarrow> [])"
    unfolding extract_answer_mugglemath_def by (simp only: ne B if_False option.case)
  from A B C show ?thesis by (simp only: whole simp_thms)
qed

text \<open>An instance, without \<^verbatim>\<open>math_verify\<close>.\<close>

theorem unbalanced_boxed_then_marker_witness:
  "extract_answer_metamath no_math_verify (''x = '' @ boxed_marker @ lbrace # ''9'' @ newline # ''#### 9'') = ''9''
   \<and> boxed_stage (''x = '' @ boxed_marker @ lbrace # ''9'' @ newline # ''#### 9'') = None"
proof -
  have 1: "\<not> sublist ''he answer is'' (''x = '' @ boxed_marker @ lbrace # ''9'')" by code_simp
  have 2: "\<not> sublist boxed_marker (''9'' @ newline # ''#### 9'')" by code_simp
  have 3: "unclosed_from 1 ''9''" by code_simp
  from unbalanced_boxed_then_marker [OF 1 2 3, of no_math_verify]
  show ?thesis by (simp only: simp_thms)
qed

text \<open>
  The claim as it was stated has the boxed-first order return \<^verbatim>\<open>9\<close> through the phrase
  stage. Without \<^verbatim>\<open>math_verify\<close> it returns the empty string.
\<close>

theorem boxed_first_has_no_phrase_stage:
  "extract_answer_mugglemath no_math_verify (''x = '' @ boxed_marker @ lbrace # ''9'' @ newline # ''#### 9'') = []"
  by code_simp

end
